theory Spec2Isabelle
  imports Main
begin

section \<open>Python values used by the Wikicorpus reader\<close>

text \<open>
  A Python (unicode) string is a sequence of code points.  Code points are natural
  numbers, because the reader's corruption table contains U+221A, which does not fit an
  8-bit character.  \<open>ustr\<close> turns an ASCII literal into such a string.
\<close>

type_synonym uchar = nat
type_synonym ustring = "uchar list"

definition ustr :: "string \<Rightarrow> ustring" where
  "ustr s = map of_char s"

text \<open>
  The interpreter's Unicode character database decides which code points
  \<open>str.strip\<close> and the regular expression classes \<open>\s\<close>, \<open>\S\<close> (both
  \<open>Py_UNICODE_ISSPACE\<close>) and \<open>\d\<close> under \<open>re.UNICODE\<close>
  (\<open>Py_UNICODE_ISDECIMAL\<close>) accept.  That table belongs to the interpreter, not to the
  reader, so every function that depends on it takes it as the parameter \<open>U\<close>.
\<close>

record ucd =
  isspace :: "uchar \<Rightarrow> bool"
  isdecimal :: "uchar \<Rightarrow> bool"

text \<open>
  A concrete table for evaluating examples: the white space of \<open>str.isspace\<close> and the
  ASCII digits.  It agrees with every interpreter on the code points below 256.
\<close>

definition py_isspace :: "uchar \<Rightarrow> bool" where
  "py_isspace c =
     ((9 \<le> c \<and> c \<le> 13) \<or> (28 \<le> c \<and> c \<le> 32) \<or> c = 133 \<or> c = 160 \<or> c = 5760
      \<or> (8192 \<le> c \<and> c \<le> 8202) \<or> c = 8232 \<or> c = 8233 \<or> c = 8239 \<or> c = 8287
      \<or> c = 12288)"

definition py_isdecimal :: "uchar \<Rightarrow> bool" where
  "py_isdecimal c = (48 \<le> c \<and> c \<le> 57)"

definition py_ucd :: ucd where
  "py_ucd = \<lparr> isspace = py_isspace, isdecimal = py_isdecimal \<rparr>"

text \<open>The values a token field holds: text, the integer of line 143, or \<open>None\<close>.\<close>

datatype pyval = PyStr ustring | PyInt int | PyNone

type_synonym token = "pyval \<times> pyval \<times> pyval \<times> pyval"

text \<open>class \<open>Document\<close> (lines 21-26); the field \<open>id\<close> is \<open>doc_id\<close> here.\<close>

record Document =
  doc_id :: ustring
  title :: ustring
  db_index :: ustring
  sents :: "token list list"

text \<open>
  The exceptions the reader can raise: the two \<open>ValueError\<close>s and the assertions of
  \<open>read_block\<close>, each with its message; \<open>TypeError\<close> is what \<open>Pattern.match\<close>
  raises on \<open>None\<close>, \<open>AttributeError\<close> what \<open>None.groups()\<close> would raise, and
  \<open>UnpackError\<close> stands for the \<open>ValueError\<close> of a tuple assignment of the wrong length.
\<close>

datatype error =
    ValueError ustring
  | AssertionError ustring
  | TypeError
  | AttributeError
  | UnpackError

section \<open>Strings and lines\<close>

definition strip :: "ucd \<Rightarrow> ustring \<Rightarrow> ustring" where
  "strip U s = rev (dropWhile (isspace U) (rev (dropWhile (isspace U) s)))"

text \<open>\<open>s.replace(old, new)\<close> for one-character \<open>old\<close> and \<open>new\<close>.\<close>

definition replace :: "uchar \<Rightarrow> uchar \<Rightarrow> ustring \<Rightarrow> ustring" where
  "replace old new s = map (\<lambda>c. if c = old then new else c) s"

text \<open>
  Modelled from the spec: the stream that the view hands to \<open>read_block\<close> (line 113,
  the seekable unicode stream reader of the corpus readers) is not among the source
  files; the spec's line source reads "one underlying text line" at each call and
  signals the end of the stream.  That reader cuts its text into lines as
  \<open>str.splitlines\<close> does: a line ends at a line feed, a vertical tab, a form feed, a
  carriage return (with the line feed that follows it, if one does), a file, group or
  record separator, a next-line character, or a line or paragraph separator.

  The stream is the text that is still unread.  \<open>readline\<close> returns the next line with
  the characters that end it, or what is left when nothing ends it, and the empty
  string at the end of the stream; the second component is the stream afterwards.
\<close>

definition linebreak :: "uchar \<Rightarrow> bool" where
  "linebreak c =
     (c = 10 \<or> c = 11 \<or> c = 12 \<or> c = 13 \<or> c = 28 \<or> c = 29 \<or> c = 30 \<or> c = 133
      \<or> c = 8232 \<or> c = 8233)"

fun readline :: "ustring \<Rightarrow> ustring \<times> ustring" where
  "readline [] = ([], [])"
| "readline (c # cs) =
     (if c = 13 \<and> cs \<noteq> [] \<and> hd cs = 10 then ([c, 10], tl cs)
      else if linebreak c then ([c], cs)
      else (case readline cs of (l, rest) \<Rightarrow> (c # l, rest)))"

text \<open>
  \<open>read_clean_line\<close> (lines 103-108); \<open>chr(160)\<close> is the non-breaking space and
  \<open>" "\<close> is code point 32.
\<close>

definition read_clean_line :: "ucd \<Rightarrow> ustring \<Rightarrow> ustring option \<times> ustring" where
  "read_clean_line U stream =
     (case readline stream of (line, rest) \<Rightarrow>
        if line = [] then (None, rest)
        else (Some (replace 160 32 (strip U line)), rest))"

section \<open>Regular expressions\<close>

text \<open>
  The four patterns use literals, the classes \<open>.\<close>, \<open>\s\<close>, \<open>\S\<close>, \<open>\d\<close> under
  the greedy \<open>+\<close> and \<open>*\<close>, and capture groups that do not nest.  A pattern is the
  list of these items.  \<open>rmatch\<close> is the backtracking matcher of \<open>Pattern.match\<close>:
  anchored at the start of the string, not at its end; a repetition takes one more
  character whenever it can and gives it back only when the rest of the pattern fails
  after it (the longest run first).  The result is the list of the groups' texts; \<open>cur\<close>
  is the text of the group that is open.
\<close>

datatype cclass = AnyChar | Space | NonSpace | Digit

datatype ritem = Lit uchar | Plus cclass | Star cclass | GroupOpen | GroupClose

type_synonym pattern = "ritem list"

fun in_class :: "ucd \<Rightarrow> cclass \<Rightarrow> uchar \<Rightarrow> bool" where
  "in_class U AnyChar c = (c \<noteq> 10)"
| "in_class U Space c = isspace U c"
| "in_class U NonSpace c = (\<not> isspace U c)"
| "in_class U Digit c = isdecimal U c"

definition grow :: "ustring option \<Rightarrow> ustring \<Rightarrow> ustring option" where
  "grow cur t = map_option (\<lambda>g. g @ t) cur"

fun rmatch :: "ucd \<Rightarrow> pattern \<Rightarrow> ustring \<Rightarrow> ustring list \<Rightarrow> ustring option
    \<Rightarrow> ustring list option" where
  "rmatch U [] s gs cur = Some gs"
| "rmatch U (Lit c # p) s gs cur =
     (case s of
        [] \<Rightarrow> None
      | x # t \<Rightarrow> if x = c then rmatch U p t gs (grow cur [x]) else None)"
| "rmatch U (GroupOpen # p) s gs cur = rmatch U p s gs (Some [])"
| "rmatch U (GroupClose # p) s gs cur =
     rmatch U p s (gs @ [case cur of None \<Rightarrow> [] | Some g \<Rightarrow> g]) None"
| "rmatch U (Plus k # p) s gs cur =
     (case s of
        [] \<Rightarrow> None
      | x # t \<Rightarrow>
          if in_class U k x then rmatch U (Star k # p) t gs (grow cur [x]) else None)"
| "rmatch U (Star k # p) s gs cur =
     (case s of
        [] \<Rightarrow> rmatch U p s gs cur
      | x # t \<Rightarrow>
          if in_class U k x
          then (case rmatch U (Star k # p) t gs (grow cur [x]) of
                  Some r \<Rightarrow> Some r
                | None \<Rightarrow> rmatch U p s gs cur)
          else rmatch U p s gs cur)"

text \<open>\<open>pattern.match(line)\<close> followed by \<open>.groups()\<close>; \<open>None\<close> when there is no match.\<close>

definition re_match :: "ucd \<Rightarrow> pattern \<Rightarrow> ustring \<Rightarrow> ustring list option" where
  "re_match U p s = rmatch U p s [] None"

definition lits :: "string \<Rightarrow> pattern" where
  "lits s = map (\<lambda>c. Lit (of_char c)) s"

definition grp :: "pattern \<Rightarrow> pattern" where
  "grp p = GroupOpen # p @ [GroupClose]"

text \<open>The patterns of lines 75-80.\<close>

definition PATTERN_DOC_START :: pattern where
  \<open>PATTERN_DOC_START =
     lits ''<doc id="'' @ grp [Plus Digit] @ lits ''" title="'' @ grp [Star AnyChar]
     @ lits ''" nonfiltered="'' @ [Plus Digit] @ lits ''" processed="'' @ [Plus Digit]
     @ lits ''" dbindex="'' @ grp [Plus Digit] @ lits ''">''\<close>

definition PATTERN_WORD :: pattern where
  "PATTERN_WORD =
     grp [Plus NonSpace] @ [Plus Space] @ grp [Plus NonSpace] @ [Plus Space]
     @ grp [Plus NonSpace] @ [Plus Space] @ grp [Plus Digit]"

definition PATTERN_WORD_DOUBLE :: pattern where
  "PATTERN_WORD_DOUBLE =
     grp [Plus NonSpace, Plus Space, Plus NonSpace] @ [Plus Space]
     @ grp [Plus NonSpace, Plus Space, Plus NonSpace] @ [Plus Space]
     @ grp [Plus NonSpace] @ [Plus Space] @ grp [Plus Digit]"

definition PATTERN_WORD_TRIPLE :: pattern where
  "PATTERN_WORD_TRIPLE =
     grp [Plus NonSpace, Plus Space, Plus NonSpace, Plus Space, Plus NonSpace] @ [Plus Space]
     @ grp [Plus NonSpace, Plus Space, Plus NonSpace, Plus Space, Plus NonSpace] @ [Plus Space]
     @ grp [Plus NonSpace] @ [Plus Space] @ grp [Plus Digit]"

section \<open>The literal lines (lines 82-100)\<close>

definition FAILING_LINE_WORD :: ustring where
  "FAILING_LINE_WORD = ustr ''30_de_gener_de_1994''"

text \<open>\<open>despr\<close>, U+221A, U+00A9, \<open>s\<close>.\<close>

definition FAILING_LINE_EXTRA_WORD :: ustring where
  "FAILING_LINE_EXTRA_WORD = ustr ''despr'' @ [8730, 169] @ ustr ''s''"

definition FAILING_LINE_LEMMA :: ustring where
  "FAILING_LINE_LEMMA = ustr ''[??:30/1/-99999:??.??:??]''"

definition FAILING_LINE_TAG :: ustring where
  "FAILING_LINE_TAG = ustr ''W''"

definition FAILING_LINE_SENSE :: ustring where
  "FAILING_LINE_SENSE = ustr ''0''"

definition FAILING_LINE :: ustring where
  "FAILING_LINE = FAILING_LINE_WORD @ ustr '' '' @ FAILING_LINE_EXTRA_WORD @ ustr '' ''
     @ FAILING_LINE_LEMMA @ ustr '' '' @ FAILING_LINE_TAG @ ustr '' '' @ FAILING_LINE_SENSE"

definition FAILING_LINE_2 :: ustring where
  "FAILING_LINE_2 = ustr ''20 000_tones WG_tm:20 Zu 0''"

definition FAILING_LINE_3 :: ustring where
  "FAILING_LINE_3 = ustr ''f''"

definition LINE_END_OF_ARTICLE :: ustring where
  "LINE_END_OF_ARTICLE = ustr ''ENDOFARTICLE endofarticle NP00000 0''"

definition LINE_DOC_TAG_CLOSE :: ustring where
  "LINE_DOC_TAG_CLOSE = ustr ''</doc>''"

section \<open>One line of a sentence (lines 139-180)\<close>

text \<open>
  What the body of the inner loop decides from the line alone: the tokens it appends
  (line 177 and, for \<open>FAILING_LINE\<close>, line 180), the \<open>break\<close> of line 173, or that no
  pattern and no table entry applies (line 151), where the loop reads one line ahead.
  \<open>Fault\<close> is for the branches of line 175 that no line reaches.
\<close>

datatype action = Append "token list" | Break | NoMatch | Fault error

definition word_match :: "ucd \<Rightarrow> ustring \<Rightarrow> ustring list option" where
  "word_match U line =
     (case re_match U PATTERN_WORD line of
        Some g \<Rightarrow> Some g
      | None \<Rightarrow>
          (case re_match U PATTERN_WORD_DOUBLE line of
             Some g \<Rightarrow> Some g
           | None \<Rightarrow> re_match U PATTERN_WORD_TRIPLE line))"

definition parse_line :: "ucd \<Rightarrow> ustring \<Rightarrow> action" where
  "parse_line U line =
     (if line = ustr ''Fz 0''
      then Append [(PyStr [], PyStr [], PyStr (ustr ''Fz''), PyInt 0)]
      else if word_match U line = None \<and> line \<noteq> FAILING_LINE \<and> line \<noteq> FAILING_LINE_2
              \<and> line \<noteq> FAILING_LINE_3
      then NoMatch
      else if line = FAILING_LINE
      then Append [(PyStr FAILING_LINE_WORD, PyStr FAILING_LINE_LEMMA,
                    PyStr FAILING_LINE_TAG, PyStr FAILING_LINE_SENSE),
                   (PyStr FAILING_LINE_EXTRA_WORD, PyNone, PyNone, PyNone)]
      else if line = FAILING_LINE_2
      then Append [(PyStr (ustr ''20000_tones''), PyStr (ustr ''WG_tm:20000''),
                    PyStr (ustr ''Zu''), PyStr (ustr ''0''))]
      else if line = FAILING_LINE_3
      then Break
      else (case word_match U line of
              None \<Rightarrow> Fault AttributeError
            | Some [word, lemma, tag, sense] \<Rightarrow>
                Append [(PyStr word, PyStr lemma, PyStr tag, PyStr sense)]
            | Some _ \<Rightarrow> Fault UnpackError))"

section \<open>The loops of \<open>read_block\<close>\<close>

text \<open>
  The inner loop (lines 138-182), from the current line, the stream and the sentence so
  far to the three of them at the loop's exit, or to the exception raised.  Each turn
  that goes on has read a line, so the loop ends.
\<close>

function inner_loop :: "ucd \<Rightarrow> ustring option \<Rightarrow> ustring \<Rightarrow> token list
    \<Rightarrow> error + (ustring option \<times> ustring \<times> token list)" where
  "inner_loop U line stream sent =
     (case line of
        None \<Rightarrow> Inr (line, stream, sent)
      | Some l \<Rightarrow>
          if l = [] \<or> l = LINE_END_OF_ARTICLE \<or> l = LINE_DOC_TAG_CLOSE
          then Inr (line, stream, sent)
          else (case parse_line U l of
                  NoMatch \<Rightarrow>
                    (case read_clean_line U stream of (next_line, stream') \<Rightarrow>
                       if next_line = None then Inr (line, stream', sent)
                       else Inl (ValueError
                         (ustr ''Could not parse the following non-ending line: '' @ l)))
                | Break \<Rightarrow> Inr (line, stream, sent)
                | Fault e \<Rightarrow> Inl e
                | Append toks \<Rightarrow>
                    (case read_clean_line U stream of (line', stream') \<Rightarrow>
                       inner_loop U line' stream' (sent @ toks))))"
  by pat_completeness auto
termination
proof -
  have len: "length l + length rest = length s" if "readline s = (l, rest)" for s l rest
    using that by (induction s arbitrary: l rest) (auto split: if_splits prod.splits)
  have meas: "length rest + (case line of None \<Rightarrow> 0 | Some _ \<Rightarrow> 1) \<le> length s"
    if "read_clean_line U s = (line, rest)" for U s line rest
    using that len[of s] by (cases "readline s")
      (auto simp: read_clean_line_def neq_Nil_conv split: if_splits)
  show ?thesis
    by (relation "measure (\<lambda>(U, line, stream, sent).
          length stream + (case line of None \<Rightarrow> 0 | Some _ \<Rightarrow> 1))")
       (auto dest!: meas[OF sym])
qed

declare inner_loop.simps [simp del]

text \<open>
  The outer loop (lines 135-192), on the current line, the stream and the document.
  Nothing in it makes a turn shorter than the one before, so it is a partial function:
  \<open>None\<close> is the loop that never ends.
\<close>

partial_function (option) outer_loop :: "ucd \<Rightarrow> ustring option \<Rightarrow> ustring \<Rightarrow> Document
    \<Rightarrow> (error + (ustring option \<times> ustring \<times> Document)) option" where
  "outer_loop U line stream doc =
     (if line = None \<or> line = Some LINE_END_OF_ARTICLE \<or> line = Some LINE_DOC_TAG_CLOSE
      then Some (Inr (line, stream, doc))
      else (case inner_loop U line stream [] of
              Inl e \<Rightarrow> Some (Inl e)
            | Inr (line1, stream1, sent) \<Rightarrow>
                if line1 = Some FAILING_LINE_3 then Some (Inr (line1, stream1, doc))
                else if line1 = Some []
                then (case read_clean_line U stream1 of (line2, stream2) \<Rightarrow>
                        outer_loop U line2 stream2 (doc\<lparr>sents := sents doc @ [sent]\<rparr>))
                else if line1 = None
                then Some (Inr (line1, stream1, doc\<lparr>sents := sents doc @ [sent]\<rparr>))
                else outer_loop U line1 stream1 (doc\<lparr>sents := sents doc @ [sent]\<rparr>)))"

declare outer_loop.simps [code]

text \<open>
  \<open>read_block\<close> (lines 116-204): the list it returns and the stream afterwards, the
  exception it raises, or \<open>None\<close> when it does not return.
\<close>

definition expect_line :: "ucd \<Rightarrow> ustring \<Rightarrow> ustring \<Rightarrow> string \<Rightarrow> error + ustring" where
  "expect_line U stream expected msg =
     (case read_clean_line U stream of (line, stream') \<Rightarrow>
        if line = Some expected then Inr stream' else Inl (AssertionError (ustr msg)))"

definition footer :: "ucd \<Rightarrow> ustring \<Rightarrow> error + ustring" where
  "footer U stream =
     (case expect_line U stream (ustr ''. . Fp 0'') ''Expected a dot after the end of article'' of
        Inl e \<Rightarrow> Inl e
      | Inr s1 \<Rightarrow>
          (case expect_line U s1 [] ''Expected a blank line'' of
             Inl e \<Rightarrow> Inl e
           | Inr s2 \<Rightarrow> expect_line U s2 LINE_DOC_TAG_CLOSE ''Expected a closing body tag''))"

definition read_block :: "ucd \<Rightarrow> ustring \<Rightarrow> (error + (Document list \<times> ustring)) option" where
  "read_block U stream =
     (case read_clean_line U stream of (line, s1) \<Rightarrow>
        (case line of
           None \<Rightarrow> Some (Inl TypeError)
         | Some l \<Rightarrow>
             (case re_match U PATTERN_DOC_START l of
                None \<Rightarrow>
                  if l = []
                  then (case expect_line U s1 LINE_DOC_TAG_CLOSE ''Expected a closing body tag'' of
                          Inl e \<Rightarrow> Some (Inl e)
                        | Inr s2 \<Rightarrow> Some (Inr ([], s2)))
                  else Some (Inl (ValueError (ustr ''Expected an opening document tag'')))
              | Some [i, t, d] \<Rightarrow>
                  (case read_clean_line U s1 of (line2, s2) \<Rightarrow>
                     (case outer_loop U line2 s2
                             \<lparr>doc_id = i, title = t, db_index = d, sents = []\<rparr> of
                        None \<Rightarrow> None
                      | Some (Inl e) \<Rightarrow> Some (Inl e)
                      | Some (Inr (line3, s3, doc)) \<Rightarrow>
                          if line3 = Some LINE_END_OF_ARTICLE
                          then (case footer U s3 of
                                  Inl e \<Rightarrow> Some (Inl e)
                                | Inr s4 \<Rightarrow> Some (Inr ([doc], s4)))
                          else Some (Inr ([doc], s3))))
              | Some _ \<Rightarrow> Some (Inl UnpackError))))"

section \<open>Input texts\<close>

text \<open>
  The statements speak of a stream through the lines that are read from it:
  \<open>reads U s ls\<close> is the stream that is left when the next reads of \<open>read_clean_line\<close>
  from \<open>s\<close> return the lines \<open>ls\<close>, one after the other, and \<open>None\<close> when they do not.
\<close>

fun reads :: "ucd \<Rightarrow> ustring \<Rightarrow> ustring list \<Rightarrow> ustring option" where
  "reads U s [] = Some s"
| "reads U s (l # ls) =
     (case read_clean_line U s of
        (None, s') \<Rightarrow> None
      | (Some l', s') \<Rightarrow> if l' = l then reads U s' ls else None)"

declare reads.simps(2) [simp del]

text \<open>
  A token line is a line for which the loop appends tokens; \<open>tokens_of\<close> are the tokens
  of a run of token lines, in their order.  A sentence block is a run of one or more
  token lines, and \<open>body ss\<close> are the lines of the blocks \<open>ss\<close>, a blank line after each.
\<close>

definition token_line :: "ucd \<Rightarrow> ustring \<Rightarrow> bool" where
  "token_line U l =
     (l \<noteq> [] \<and> l \<noteq> LINE_END_OF_ARTICLE \<and> l \<noteq> LINE_DOC_TAG_CLOSE
      \<and> (case parse_line U l of Append ts \<Rightarrow> True | _ \<Rightarrow> False))"

definition tokens_of :: "ucd \<Rightarrow> ustring list \<Rightarrow> token list" where
  "tokens_of U ls =
     concat (map (\<lambda>l. case parse_line U l of Append ts \<Rightarrow> ts | _ \<Rightarrow> []) ls)"

definition sentence :: "ucd \<Rightarrow> ustring list \<Rightarrow> bool" where
  "sentence U ls = (ls \<noteq> [] \<and> list_all (token_line U) ls)"

definition body :: "ustring list list \<Rightarrow> ustring list" where
  "body ss = concat (map (\<lambda>ls. ls @ [[]]) ss)"

text \<open>
  The token lines of rules 2 to 4, written out.  A field is a run of characters that
  are not white space, a gap a run of white space, the sense a run of decimal digits.
  A phrase is one field, or fields with gaps between them, and its text is all of it,
  the gaps too.  A row is a word and a lemma, phrases of the same number of fields (one
  for rule 2, two for rule 3, three for rule 4), a tag and a sense, with a gap before
  the lemma, the tag and the sense.
\<close>

definition field :: "ucd \<Rightarrow> ustring \<Rightarrow> bool" where
  "field U w = (w \<noteq> [] \<and> list_all (\<lambda>c. \<not> isspace U c) w)"

definition gap :: "ucd \<Rightarrow> ustring \<Rightarrow> bool" where
  "gap U g = (g \<noteq> [] \<and> list_all (isspace U) g)"

definition digits :: "ucd \<Rightarrow> ustring \<Rightarrow> bool" where
  "digits U d = (d \<noteq> [] \<and> list_all (isdecimal U) d)"








text \<open>
  The lines that \<open>read_block\<close> compares a line with before it takes it for a token
  line of the three patterns.
\<close>

definition literal_lines :: "ustring list" where
  "literal_lines =
     [LINE_END_OF_ARTICLE, LINE_DOC_TAG_CLOSE, ustr ''Fz 0'', FAILING_LINE, FAILING_LINE_2,
      FAILING_LINE_3]"


text \<open>
  What the theorems on rows assume of the character table: no decimal digit is white
  space.
\<close>

definition apart :: "ucd \<Rightarrow> bool" where
  "apart U = (\<forall>c. \<not> (isspace U c \<and> isdecimal U c))"

text \<open>
  A non-blank line that is none of \<open>Fz 0\<close>, a match of one of the three word patterns,
  an entry of the corruption table, or the skip literal.
\<close>

definition unparsable :: "ucd \<Rightarrow> ustring \<Rightarrow> bool" where
  "unparsable U u =
     (u \<noteq> [] \<and> u \<noteq> ustr ''Fz 0'' \<and> word_match U u = None \<and> u \<noteq> FAILING_LINE
      \<and> u \<noteq> FAILING_LINE_2 \<and> u \<noteq> FAILING_LINE_3)"

text \<open>
  A raw line cut into the white space at its start, the white space at its end and what
  is between them, which is empty or starts and ends with a character that is not white
  space.
\<close>

definition trimmed :: "ucd \<Rightarrow> ustring \<Rightarrow> ustring \<Rightarrow> ustring \<Rightarrow> ustring \<Rightarrow> bool" where
  "trimmed U raw pre mid post =
     (raw = pre @ mid @ post \<and> list_all (isspace U) pre \<and> list_all (isspace U) post
      \<and> (mid = [] \<or> (\<not> isspace U (hd mid) \<and> \<not> isspace U (last mid))))"

text \<open>Whether two blank lines follow one another in a list of lines.\<close>

fun double_blank :: "ustring list \<Rightarrow> bool" where
  "double_blank (a # b # r) = ((a = [] \<and> b = []) \<or> double_blank (b # r))"
| "double_blank r = False"

text \<open>
  For the proofs: all the lines that \<open>read_clean_line\<close> returns from a stream, up to
  its end; the loops started on the next line of a stream; the lines at which both
  loops stop; the lines still to come at a state of the loops; the state in which the
  outer loop repeats itself, a line that nothing parses with the stream at its end;
  and a pattern that matches no string that starts with a character of a class.
\<close>

function clean_lines :: "ucd \<Rightarrow> ustring \<Rightarrow> ustring list" where
  "clean_lines U s =
     (case read_clean_line U s of
        (None, rest) \<Rightarrow> []
      | (Some l, rest) \<Rightarrow> l # clean_lines U rest)"
  by pat_completeness auto
termination
proof -
  have len: "length l + length rest = length s" if "readline s = (l, rest)" for s l rest
    using that by (induction s arbitrary: l rest) (auto split: if_splits prod.splits)
  have meas: "length rest < length s"
    if "read_clean_line U s = (Some l, rest)" for U s l rest
    using that len[of s] by (cases "readline s")
      (auto simp: read_clean_line_def neq_Nil_conv split: if_splits)
  show ?thesis
    by (relation "measure (\<lambda>(U, s). length s)") (auto dest!: meas[OF sym])
qed

declare clean_lines.simps [simp del]

definition inner_from :: "ucd \<Rightarrow> ustring \<Rightarrow> token list
    \<Rightarrow> error + (ustring option \<times> ustring \<times> token list)" where
  "inner_from U s sent =
     (case read_clean_line U s of (line, s') \<Rightarrow> inner_loop U line s' sent)"

definition outer_from :: "ucd \<Rightarrow> ustring \<Rightarrow> Document
    \<Rightarrow> (error + (ustring option \<times> ustring \<times> Document)) option" where
  "outer_from U s doc =
     (case read_clean_line U s of (line, s') \<Rightarrow> outer_loop U line s' doc)"

definition stop_line :: "ustring option \<Rightarrow> bool" where
  "stop_line line =
     (line = None \<or> line = Some [] \<or> line = Some LINE_END_OF_ARTICLE
      \<or> line = Some LINE_DOC_TAG_CLOSE)"

definition pend :: "ucd \<Rightarrow> ustring option \<Rightarrow> ustring \<Rightarrow> ustring list" where
  "pend U line s = (case line of None \<Rightarrow> clean_lines U s | Some l \<Rightarrow> l # clean_lines U s)"

definition stuck :: "ucd \<Rightarrow> ustring option \<Rightarrow> ustring \<Rightarrow> bool" where
  "stuck U line stream =
     (stream = [] \<and>
      (case line of
         None \<Rightarrow> False
       | Some u \<Rightarrow> \<not> stop_line (Some u) \<and> parse_line U u = NoMatch))"

definition rejects :: "ucd \<Rightarrow> cclass \<Rightarrow> pattern \<Rightarrow> bool" where
  "rejects U k p =
     (\<forall>s gs cur. s \<noteq> [] \<and> in_class U k (hd s) \<longrightarrow> rmatch U p s gs cur = None)"

text \<open>
  For the concrete inputs below: the text of a file whose lines are \<open>ls\<close>, each ended
  by a line feed; the lines that such a text gives back as they are (no character that
  ends a line in them, and stripping and replacing leaves them unchanged); an example
  start marker, a token of four texts, the example document with given sentences, and
  the row of rule 2 with single spaces between its four fields.
\<close>

definition render :: "ustring list \<Rightarrow> ustring" where
  "render ls = concat (map (\<lambda>l. l @ [10]) ls)"

definition is_line :: "ucd \<Rightarrow> ustring \<Rightarrow> bool" where
  "is_line U l =
     (list_all (\<lambda>c. \<not> linebreak c) l \<and> replace 160 32 (strip U (l @ [10])) = l)"

definition example_start :: ustring where
  \<open>example_start = ustr ''<doc id="1" title="X" nonfiltered="0" processed="1" dbindex="5">''\<close>

definition tok :: "string \<Rightarrow> string \<Rightarrow> string \<Rightarrow> string \<Rightarrow> token" where
  "tok w l t s = (PyStr (ustr w), PyStr (ustr l), PyStr (ustr t), PyStr (ustr s))"

definition example_doc :: "token list list \<Rightarrow> Document" where
  "example_doc ss =
     \<lparr>doc_id = ustr ''1'', title = ustr ''X'', db_index = ustr ''5'', sents = ss\<rparr>"


section \<open>Reading lines\<close>

lemma readline_empty: "readline s = ([], rest) \<Longrightarrow> s = []"
  by (cases s) (auto split: if_splits prod.splits)

lemma readline_newline:
  "list_all (\<lambda>c. \<not> linebreak c) l \<Longrightarrow> readline (l @ 10 # rest) = (l @ [10], rest)"
  by (induction l) (auto simp: linebreak_def)

lemma read_clean_line_Nil: "read_clean_line U [] = (None, [])"
  by (simp add: read_clean_line_def)

lemma read_clean_line_is_line:
  "is_line U l \<Longrightarrow> read_clean_line U (l @ 10 # rest) = (Some l, rest)"
  by (simp add: is_line_def read_clean_line_def readline_newline)

lemma read_more: "s \<noteq> [] \<Longrightarrow> fst (read_clean_line U s) \<noteq> None"
  by (cases "readline s") (auto simp: read_clean_line_def dest: readline_empty)

lemma read_none:
  assumes "read_clean_line U s = (None, s')"
  shows "s = [] \<and> s' = []"
proof -
  obtain l r where lr: "readline s = (l, r)"
    by (cases "readline s")
  with assms have "l = []" and "r = s'"
    by (auto simp: read_clean_line_def split: if_splits)
  with lr have "s = []"
    by (auto dest: readline_empty)
  with lr \<open>r = s'\<close> show ?thesis by simp
qed

lemma reads_Cons:
  "reads U s (l # ls) = Some s' \<longleftrightarrow>
     (\<exists>s1. read_clean_line U s = (Some l, s1) \<and> reads U s1 ls = Some s')"
  by (cases "read_clean_line U s") (auto simp: reads.simps(2) split: option.splits)

lemma reads_append:
  "reads U s (xs @ ys) = Some s' \<longleftrightarrow>
     (\<exists>s1. reads U s xs = Some s1 \<and> reads U s1 ys = Some s')"
  by (induction xs arbitrary: s) (auto simp: reads_Cons)

lemma reads_render:
  "list_all (is_line U) ls \<Longrightarrow> reads U (render ls @ rest) ls = Some rest"
  by (induction ls) (auto simp: render_def read_clean_line_is_line reads_Cons)

lemma body_Cons: "body (ls # ss) = (ls @ [[]]) @ body ss"
  by (simp add: body_def)

lemma markers_distinct:
  "LINE_END_OF_ARTICLE \<noteq> FAILING_LINE_3" "LINE_DOC_TAG_CLOSE \<noteq> FAILING_LINE_3"
  "LINE_END_OF_ARTICLE \<noteq> []" "LINE_DOC_TAG_CLOSE \<noteq> []"
  "LINE_END_OF_ARTICLE \<noteq> LINE_DOC_TAG_CLOSE" "FAILING_LINE_3 \<noteq> []"
  by (simp_all add: LINE_END_OF_ARTICLE_def LINE_DOC_TAG_CLOSE_def FAILING_LINE_3_def ustr_def)

section \<open>One line\<close>

lemma parse_line_skip: "parse_line U FAILING_LINE_3 = Break"
  by (simp add: parse_line_def FAILING_LINE_3_def FAILING_LINE_2_def FAILING_LINE_def
      FAILING_LINE_WORD_def ustr_def)

lemma parse_line_nonempty: "parse_line U l = Append ts \<Longrightarrow> ts \<noteq> []"
  by (auto simp: parse_line_def split: if_splits option.splits list.splits)

lemma parse_line_break: "parse_line U l = Break \<Longrightarrow> l = FAILING_LINE_3"
  by (auto simp: parse_line_def split: if_splits option.splits list.splits)

lemma unparsable_nomatch: "unparsable U u \<Longrightarrow> parse_line U u = NoMatch"
  by (simp add: unparsable_def parse_line_def)

lemma skip_not_stop: "\<not> stop_line (Some FAILING_LINE_3)"
  using markers_distinct by (auto simp: stop_line_def)

section \<open>The loops on the lines read\<close>

lemma inner_from_token:
  assumes "token_line U l" and "read_clean_line U s = (Some l, s')"
  shows "inner_from U s sent = inner_from U s' (sent @ tokens_of U [l])"
  using assms unfolding inner_from_def token_line_def tokens_of_def
  by (subst inner_loop.simps) (auto split: action.splits prod.splits)

lemma inner_from_tokens:
  "list_all (token_line U) ls \<Longrightarrow> reads U s ls = Some s' \<Longrightarrow>
     inner_from U s sent = inner_from U s' (sent @ tokens_of U ls)"
proof (induction ls arbitrary: s sent)
  case Nil
  then show ?case by (simp add: tokens_of_def)
next
  case (Cons l ls)
  from Cons.prems(2) obtain s1 where
    s1: "read_clean_line U s = (Some l, s1)" "reads U s1 ls = Some s'"
    by (auto simp: reads_Cons)
  have "inner_from U s sent = inner_from U s1 (sent @ tokens_of U [l])"
    using Cons.prems(1) s1(1) by (simp add: inner_from_token)
  also have "\<dots> = inner_from U s' ((sent @ tokens_of U [l]) @ tokens_of U ls)"
    using Cons.prems(1) s1(2) by (simp add: Cons.IH)
  finally show ?case by (simp add: tokens_of_def)
qed

lemma inner_from_stop:
  "read_clean_line U s = (line, s') \<Longrightarrow> stop_line line \<Longrightarrow> inner_from U s sent = Inr (line, s', sent)"
  unfolding inner_from_def stop_line_def
  by (subst inner_loop.simps) auto

lemma inner_from_skip:
  "read_clean_line U s = (Some FAILING_LINE_3, s') \<Longrightarrow>
     inner_from U s sent = Inr (Some FAILING_LINE_3, s', sent)"
  unfolding inner_from_def using skip_not_stop
  by (subst inner_loop.simps) (auto simp: parse_line_skip stop_line_def)

lemma inner_from_nomatch:
  "read_clean_line U s = (Some u, s') \<Longrightarrow> \<not> stop_line (Some u) \<Longrightarrow> parse_line U u = NoMatch \<Longrightarrow>
     inner_from U s sent =
       (case read_clean_line U s' of
          (None, s'') \<Rightarrow> Inr (Some u, s'', sent)
        | (Some x, s'') \<Rightarrow> Inl (ValueError
             (ustr ''Could not parse the following non-ending line: '' @ u)))"
  unfolding inner_from_def
  by (subst inner_loop.simps) (auto simp: stop_line_def split: prod.splits option.splits)

lemma outer_from_unfold:
  "outer_from U x doc =
     (case read_clean_line U x of (line0, s0) \<Rightarrow>
        if line0 = None \<or> line0 = Some LINE_END_OF_ARTICLE \<or> line0 = Some LINE_DOC_TAG_CLOSE
        then Some (Inr (line0, s0, doc))
        else (case inner_from U x [] of
                Inl e \<Rightarrow> Some (Inl e)
              | Inr (line1, s1, sent) \<Rightarrow>
                  if line1 = Some FAILING_LINE_3 then Some (Inr (line1, s1, doc))
                  else if line1 = Some []
                  then outer_from U s1 (doc\<lparr>sents := sents doc @ [sent]\<rparr>)
                  else if line1 = None
                  then Some (Inr (line1, s1, doc\<lparr>sents := sents doc @ [sent]\<rparr>))
                  else outer_loop U line1 s1 (doc\<lparr>sents := sents doc @ [sent]\<rparr>)))"
  unfolding outer_from_def inner_from_def
  by (subst outer_loop.simps) (auto split: prod.splits sum.splits)

lemma outer_loop_stop:
  "line = None \<or> line = Some LINE_END_OF_ARTICLE \<or> line = Some LINE_DOC_TAG_CLOSE \<Longrightarrow>
     outer_loop U line s doc = Some (Inr (line, s, doc))"
  by (subst outer_loop.simps) auto

lemma inner_loop_stuck:
  "stuck U (Some u) [] \<Longrightarrow> inner_loop U (Some u) [] sent = Inr (Some u, [], sent)"
  unfolding stuck_def stop_line_def
  by (subst inner_loop.simps) (simp add: read_clean_line_Nil)

lemma stuck_not_skip: "stuck U (Some u) s \<Longrightarrow> u \<noteq> FAILING_LINE_3"
  by (auto simp: stuck_def parse_line_skip)

lemma outer_loop_not_stuck:
  "outer_loop U line stream doc = Some y \<Longrightarrow> \<not> stuck U line stream"
proof (induction rule: outer_loop.raw_induct[rotated 1, consumes 1])
  case (1 f U line stream doc y)
  show ?case
  proof
    assume st: "stuck U line stream"
    then obtain u where u: "line = Some u" "stream = []"
      by (auto simp: stuck_def split: option.splits)
    have ns: "\<not> stop_line (Some u)" using st u by (simp add: stuck_def)
    have "f U (Some u) [] (doc\<lparr>sents := sents doc @ [[]]\<rparr>) = Some y"
      using 1(2) st ns stuck_not_skip[of U u "[]"] inner_loop_stuck[of U u "[]"]
      by (simp add: u stop_line_def)
    from 1(1)[OF this] show False using st u by simp
  qed
qed

lemma outer_loop_stuck: "stuck U line stream \<Longrightarrow> outer_loop U line stream doc = None"
  using outer_loop_not_stuck[of U line stream doc] by (cases "outer_loop U line stream doc") auto

lemma outer_from_tail:
  assumes "list_all (token_line U) ls" and "reads U s ls = Some s'"
    and "ls = [] \<Longrightarrow> fst (read_clean_line U s')
           \<notin> {None, Some LINE_END_OF_ARTICLE, Some LINE_DOC_TAG_CLOSE}"
  shows "outer_from U s doc =
     (case inner_from U s' (tokens_of U ls) of
        Inl e \<Rightarrow> Some (Inl e)
      | Inr (line1, s1, sent) \<Rightarrow>
          if line1 = Some FAILING_LINE_3 then Some (Inr (line1, s1, doc))
          else if line1 = Some []
          then outer_from U s1 (doc\<lparr>sents := sents doc @ [sent]\<rparr>)
          else if line1 = None
          then Some (Inr (line1, s1, doc\<lparr>sents := sents doc @ [sent]\<rparr>))
          else outer_loop U line1 s1 (doc\<lparr>sents := sents doc @ [sent]\<rparr>))"
proof -
  have first: "fst (read_clean_line U s)
      \<notin> {None, Some LINE_END_OF_ARTICLE, Some LINE_DOC_TAG_CLOSE}"
  proof (cases ls)
    case Nil
    then show ?thesis using assms(2,3) by simp
  next
    case (Cons l ls')
    then show ?thesis using assms(1,2)
      by (auto simp: reads_Cons token_line_def)
  qed
  have inner: "inner_from U s [] = inner_from U s' (tokens_of U ls)"
    using inner_from_tokens[OF assms(1,2), of "[]"] by simp
  show ?thesis
    by (subst outer_from_unfold) (use first in \<open>auto simp: inner split: prod.splits\<close>)
qed

lemma outer_from_sentence:
  assumes "sentence U ls" and "reads U s (ls @ [[]]) = Some s'"
  shows "outer_from U s doc = outer_from U s' (doc\<lparr>sents := sents doc @ [tokens_of U ls]\<rparr>)"
proof -
  from assms(2) obtain s1 where
    s1: "reads U s ls = Some s1" "read_clean_line U s1 = (Some [], s')"
    by (auto simp: reads_append reads_Cons)
  have "inner_from U s1 (tokens_of U ls) = Inr (Some [], s', tokens_of U ls)"
    using s1(2) by (rule inner_from_stop) (simp add: stop_line_def)
  then show ?thesis
    using assms(1) outer_from_tail[of U ls s s1 doc] s1(1) markers_distinct
    by (simp add: sentence_def)
qed

lemma outer_from_body:
  "list_all (sentence U) ss \<Longrightarrow> reads U s (body ss) = Some s' \<Longrightarrow>
     outer_from U s doc = outer_from U s' (doc\<lparr>sents := sents doc @ map (tokens_of U) ss\<rparr>)"
proof (induction ss arbitrary: s doc)
  case Nil
  then show ?case by (simp add: body_def)
next
  case (Cons ls ss)
  from Cons.prems(2) obtain s1 where
    s1: "reads U s (ls @ [[]]) = Some s1" "reads U s1 (body ss) = Some s'"
    by (auto simp only: body_Cons reads_append)
  have "outer_from U s doc = outer_from U s1 (doc\<lparr>sents := sents doc @ [tokens_of U ls]\<rparr>)"
    using Cons.prems(1) s1(1) by (simp add: outer_from_sentence)
  also have "\<dots> = outer_from U s'
      (doc\<lparr>sents := sents doc @ [tokens_of U ls]\<rparr>\<lparr>sents := sents (doc\<lparr>sents := sents doc @ [tokens_of U ls]\<rparr>) @ map (tokens_of U) ss\<rparr>)"
    using Cons.prems(1) s1(2) by (simp add: Cons.IH)
  finally show ?case by simp
qed

lemma outer_from_end:
  assumes "list_all (token_line U) ls" and "reads U s ls = Some s1"
    and "read_clean_line U s1 = (line1, s2)"
    and "line1 = None \<or> line1 = Some LINE_END_OF_ARTICLE \<or> line1 = Some LINE_DOC_TAG_CLOSE"
  shows "outer_from U s doc =
     Some (Inr (line1, s2, if ls = [] then doc else doc\<lparr>sents := sents doc @ [tokens_of U ls]\<rparr>))"
proof (cases "ls = []")
  case True
  then show ?thesis using assms(2,3,4)
    by (auto simp: outer_from_def outer_loop_stop)
next
  case False
  have "inner_from U s1 (tokens_of U ls) = Inr (line1, s2, tokens_of U ls)"
    using assms(3,4) by (auto intro!: inner_from_stop simp: stop_line_def)
  then show ?thesis
    using False assms(1,2,4) outer_from_tail[of U ls s s1 doc] markers_distinct
    by (auto simp: outer_loop_stop)
qed

lemma outer_from_skip:
  assumes "list_all (token_line U) ls" and "reads U s ls = Some s1"
    and "read_clean_line U s1 = (Some FAILING_LINE_3, s2)"
  shows "outer_from U s doc = Some (Inr (Some FAILING_LINE_3, s2, doc))"
  using assms outer_from_tail[of U ls s s1 doc] inner_from_skip[of U s1 s2 "tokens_of U ls"]
    markers_distinct
  by auto

lemma outer_from_nomatch_more:
  assumes "list_all (token_line U) ls" and "reads U s ls = Some s1"
    and "read_clean_line U s1 = (Some u, s2)" and "\<not> stop_line (Some u)"
    and "parse_line U u = NoMatch" and "s2 \<noteq> []"
  shows "outer_from U s doc =
     Some (Inl (ValueError (ustr ''Could not parse the following non-ending line: '' @ u)))"
proof -
  obtain x s3 where "read_clean_line U s2 = (Some x, s3)"
    using read_more[OF assms(6), of U] by (cases "read_clean_line U s2") auto
  then have "inner_from U s1 (tokens_of U ls) =
      Inl (ValueError (ustr ''Could not parse the following non-ending line: '' @ u))"
    using inner_from_nomatch[OF assms(3,4,5), of "tokens_of U ls"] by simp
  then show ?thesis
    using assms(1,2,3,4) outer_from_tail[of U ls s s1 doc] by (auto simp: stop_line_def)
qed

lemma outer_from_nomatch_eof:
  assumes "list_all (token_line U) ls" and "reads U s ls = Some s1"
    and "read_clean_line U s1 = (Some u, [])" and "\<not> stop_line (Some u)"
    and "parse_line U u = NoMatch"
  shows "outer_from U s doc = None"
proof -
  have st: "stuck U (Some u) []"
    using assms(4,5) by (simp add: stuck_def)
  have "inner_from U s1 (tokens_of U ls) = Inr (Some u, [], tokens_of U ls)"
    using inner_from_nomatch[OF assms(3,4,5), of "tokens_of U ls"]
    by (simp add: read_clean_line_Nil)
  then show ?thesis
    using assms(1,2,3,4) outer_from_tail[of U ls s s1 doc] stuck_not_skip[OF st]
    by (auto simp: stop_line_def outer_loop_stuck[OF st])
qed

lemma read_block_start:
  assumes "read_clean_line U stream = (Some h, s)"
    and "re_match U PATTERN_DOC_START h = Some [i, t, d]"
  shows "read_block U stream =
     (case outer_from U s \<lparr>doc_id = i, title = t, db_index = d, sents = []\<rparr> of
        None \<Rightarrow> None
      | Some (Inl e) \<Rightarrow> Some (Inl e)
      | Some (Inr (line3, s3, doc)) \<Rightarrow>
          if line3 = Some LINE_END_OF_ARTICLE
          then (case footer U s3 of
                  Inl e \<Rightarrow> Some (Inl e)
                | Inr s4 \<Rightarrow> Some (Inr ([doc], s4)))
          else Some (Inr ([doc], s3)))"
  using assms
  by (simp add: read_block_def outer_from_def split: prod.splits)

lemma read_block_body:
  assumes "reads U stream (h # body ss) = Some s"
    and "re_match U PATTERN_DOC_START h = Some [i, t, d]"
    and "list_all (sentence U) ss"
  shows "read_block U stream =
     (case outer_from U s \<lparr>doc_id = i, title = t, db_index = d, sents = map (tokens_of U) ss\<rparr> of
        None \<Rightarrow> None
      | Some (Inl e) \<Rightarrow> Some (Inl e)
      | Some (Inr (line3, s3, doc)) \<Rightarrow>
          if line3 = Some LINE_END_OF_ARTICLE
          then (case footer U s3 of
                  Inl e \<Rightarrow> Some (Inl e)
                | Inr s4 \<Rightarrow> Some (Inr ([doc], s4)))
          else Some (Inr ([doc], s3)))"
proof -
  from assms(1) obtain s1 where
    s1: "read_clean_line U stream = (Some h, s1)" "reads U s1 (body ss) = Some s"
    by (auto simp: reads_Cons)
  show ?thesis
    using read_block_start[OF s1(1) assms(2)] outer_from_body[OF assms(3) s1(2)]
    by simp
qed



section \<open>Matching the word patterns\<close>

text \<open>
  A repetition followed by a pattern that matches no string starting with a character
  of the repetition's class takes the whole run of such characters and gives nothing
  back; this makes the match of a pattern against a line of fields and gaps exact.
\<close>

lemma grow_Some: "grow (Some g) t = Some (g @ t)"
  by (simp add: grow_def)

lemma grow_None: "grow None t = None"
  by (simp add: grow_def)

lemma grow_Nil: "grow cur [] = cur"
  by (cases cur) (simp_all add: grow_def)

lemma grow_grow: "grow (grow cur a) b = grow cur (a @ b)"
  by (cases cur) (simp_all add: grow_def)

lemma star_exact:
  assumes "list_all (in_class U k) w"
    and "s = [] \<or> \<not> in_class U k (hd s)"
    and "rejects U k p \<or> rmatch U p s gs (grow cur w) \<noteq> None"
  shows "rmatch U (Star k # p) (w @ s) gs cur = rmatch U p s gs (grow cur w)"
  using assms
proof (induction w arbitrary: cur)
  case Nil
  then show ?case by (cases s) (auto simp: grow_Nil)
next
  case (Cons x w)
  let ?r = "rmatch U p s gs (grow cur (x # w))"
  have ih: "rmatch U (Star k # p) (w @ s) gs (grow cur [x]) = ?r"
    using Cons.prems by (subst Cons.IH) (simp_all add: grow_grow)
  show ?case
  proof (cases ?r)
    case None
    with Cons.prems(3) have "rejects U k p" by simp
    then have "rmatch U p ((x # w) @ s) gs cur = None"
      using Cons.prems(1) by (simp add: rejects_def)
    then show ?thesis using ih None Cons.prems(1) by simp
  next
    case (Some r)
    then show ?thesis using ih Cons.prems(1) by simp
  qed
qed

lemma plus_exact:
  assumes "w \<noteq> []" and "list_all (in_class U k) w"
    and "s = [] \<or> \<not> in_class U k (hd s)"
    and "rejects U k p \<or> rmatch U p s gs (grow cur w) \<noteq> None"
  shows "rmatch U (Plus k # p) (w @ s) gs cur = rmatch U p s gs (grow cur w)"
proof -
  from assms(1) obtain x w' where w: "w = x # w'"
    by (cases w) auto
  have "rmatch U (Star k # p) (w' @ s) gs (grow cur [x]) = rmatch U p s gs (grow cur w)"
    using assms(2,3,4) w by (subst star_exact) (simp_all add: grow_grow)
  then show ?thesis using assms(2) w by simp
qed

lemma rejects_plus:
  "(\<And>c. in_class U k c \<Longrightarrow> \<not> in_class U k' c) \<Longrightarrow> rejects U k (Plus k' # p)"
  unfolding rejects_def
proof (intro allI impI)
  fix s gs cur
  assume a: "\<And>c. in_class U k c \<Longrightarrow> \<not> in_class U k' c" and "s \<noteq> [] \<and> in_class U k (hd s)"
  then show "rmatch U (Plus k' # p) s gs cur = None"
    by (cases s) auto
qed

lemma rejects_open: "rejects U k p \<Longrightarrow> rejects U k (GroupOpen # p)"
  by (simp add: rejects_def)

lemma rejects_close: "rejects U k p \<Longrightarrow> rejects U k (GroupClose # p)"
  by (simp add: rejects_def)

lemma rejects_space_field: "rejects U Space (Plus NonSpace # p)"
  by (rule rejects_plus) simp

lemma rejects_field_space: "rejects U NonSpace (Plus Space # p)"
  by (rule rejects_plus) simp

lemma rejects_space_digit: "apart U \<Longrightarrow> rejects U Space (Plus Digit # p)"
  by (rule rejects_plus) (auto simp: apart_def)

lemmas rejects_rules = rejects_open rejects_close rejects_space_field rejects_field_space
  rejects_space_digit

lemma field_run:
  "field U w \<Longrightarrow> w \<noteq> [] \<and> list_all (in_class U NonSpace) w \<and> \<not> isspace U (hd w)"
  by (cases w) (auto simp: field_def list_all_iff)

lemma gap_run:
  "gap U g \<Longrightarrow> g \<noteq> [] \<and> list_all (in_class U Space) g \<and> isspace U (hd g)"
  by (cases g) (auto simp: gap_def list_all_iff)

lemma starts_field: "field U f \<Longrightarrow> f @ s \<noteq> [] \<and> \<not> isspace U (hd (f @ s))"
  by (cases f) (auto simp: field_def)

lemma starts_digits: "digits U d \<Longrightarrow> apart U \<Longrightarrow> d @ s \<noteq> [] \<and> \<not> isspace U (hd (d @ s))"
  by (cases d) (auto simp: digits_def apart_def)

lemma unit1:
  assumes "field U f" and "gap U g" and "s \<noteq> [] \<and> \<not> isspace U (hd s)"
    and "rejects U Space p"
  shows "rmatch U (GroupOpen # Plus NonSpace # GroupClose # Plus Space # p) (f @ g @ s) gs cur
     = rmatch U p s (gs @ [f]) None"
  using assms(3,4) field_run[OF assms(1)] gap_run[OF assms(2)]
  by (simp add: plus_exact rejects_rules grow_Some grow_None
      del: rmatch.simps(5) rmatch.simps(6))



lemma sense_group:
  assumes "digits U d" and "x = [] \<or> \<not> isdecimal U (hd x)"
  shows "rmatch U [GroupOpen, Plus Digit, GroupClose] (d @ x) gs cur = Some (gs @ [d])"
proof -
  have d: "d \<noteq> []" "list_all (in_class U Digit) d"
    using assms(1) by (auto simp: digits_def list_all_iff)
  have "rmatch U (Plus Digit # [GroupClose]) (d @ x) gs (Some []) = Some (gs @ [d])"
    using d assms(2) by (subst plus_exact) (auto simp: grow_Some)
  then show ?thesis by simp
qed


lemma rejects_sense: "apart U \<Longrightarrow> rejects U Space (GroupOpen # Plus Digit # p)"
  by (intro rejects_open rejects_space_digit)

lemma rejects_unit: "rejects U Space (GroupOpen # Plus NonSpace # p)"
  by (intro rejects_open rejects_space_field)

lemma row_word1:
  assumes "apart U" and "field U w" and "gap U g1" and "field U l" and "gap U g2"
    and "field U t" and "gap U g3" and "digits U d"
    and "x = [] \<or> \<not> isdecimal U (hd x)"
  shows "word_match U (w @ g1 @ l @ g2 @ t @ g3 @ d @ x) = Some [w, l, t, d]"
proof -
  have "re_match U PATTERN_WORD (w @ g1 @ l @ g2 @ t @ g3 @ d @ x) = Some [w, l, t, d]"
    unfolding re_match_def PATTERN_WORD_def grp_def append.simps
    by (simp only: unit1[OF assms(2,3) starts_field[OF assms(4)] rejects_unit]
        unit1[OF assms(4,5) starts_field[OF assms(6)] rejects_unit]
        unit1[OF assms(6,7) starts_digits[OF assms(8,1)] rejects_sense[OF assms(1)]]
        sense_group[OF assms(8,9)] append.simps)
  then show ?thesis by (simp add: word_match_def)
qed






section \<open>Rows are token lines\<close>




lemma parse_line_match:
  assumes "word_match U line = Some [a, b, c, e]" and "line \<notin> set literal_lines"
  shows "parse_line U line = Append [(PyStr a, PyStr b, PyStr c, PyStr e)]"
  using assms by (simp add: parse_line_def literal_lines_def)





section \<open>The lines a call reads\<close>

lemma double_blank_append: "double_blank ys \<Longrightarrow> double_blank (xs @ ys)"
proof (induction xs)
  case Nil
  then show ?case by simp
next
  case (Cons x xs)
  then show ?case by (cases "xs @ ys") auto
qed

lemma double_blank_prefix: "double_blank xs \<Longrightarrow> double_blank (xs @ ys)"
  by (induction xs rule: double_blank.induct) auto

lemma pend_read:
  assumes "read_clean_line U s = (line, s')"
  shows "clean_lines U s = pend U line s'"
proof (cases line)
  case None
  with assms have "s = []" "s' = []"
    using read_none[of U s s'] by simp_all
  then show ?thesis using None by (simp add: pend_def)
next
  case (Some l)
  then show ?thesis using assms
    by (subst clean_lines.simps) (simp add: pend_def)
qed

lemma reads_clean_lines:
  "reads U s ls = Some s' \<Longrightarrow> clean_lines U s = ls @ clean_lines U s'"
proof (induction ls arbitrary: s)
  case Nil
  then show ?case by simp
next
  case (Cons l ls)
  from Cons.prems obtain s1 where
    s1: "read_clean_line U s = (Some l, s1)" "reads U s1 ls = Some s'"
    by (auto simp: reads_Cons)
  show ?case
    using pend_read[OF s1(1)] Cons.IH[OF s1(2)] by (simp add: pend_def)
qed

lemma inner_loop_exit:
  "inner_loop U line stream sent = Inr (line1, s1, sent1) \<Longrightarrow>
     (\<exists>pre. pend U line stream = pre @ pend U line1 s1) \<and>
     (\<exists>more. sent1 = sent @ more) \<and>
     (sent1 = [] \<longrightarrow> line1 = line \<and> s1 = stream \<and>
        (stop_line line \<or> line = Some FAILING_LINE_3 \<or> stuck U line s1))"
proof (induction U line stream sent rule: inner_loop.induct)
  case (1 U line stream sent)
  show ?case
  proof (cases "stop_line line")
    case True
    then show ?thesis using "1.prems"
      by (subst (asm) inner_loop.simps) (auto simp: stop_line_def)
  next
    case False
    then obtain l where l: "line = Some l" "l \<noteq> []" "l \<noteq> LINE_END_OF_ARTICLE" "l \<noteq> LINE_DOC_TAG_CLOSE"
      by (auto simp: stop_line_def)
    show ?thesis
    proof (cases "parse_line U l")
      case (Append toks)
      obtain line' stream' where r: "read_clean_line U stream = (line', stream')"
        by (cases "read_clean_line U stream")
      have eq: "inner_loop U line' stream' (sent @ toks) = Inr (line1, s1, sent1)"
        using "1.prems" l Append r by (subst (asm) inner_loop.simps) simp
      have ih: "(\<exists>pre. pend U line' stream' = pre @ pend U line1 s1) \<and>
          (\<exists>more. sent1 = (sent @ toks) @ more) \<and>
          (sent1 = [] \<longrightarrow> line1 = line' \<and> s1 = stream' \<and>
             (stop_line line' \<or> line' = Some FAILING_LINE_3 \<or> stuck U line' s1))"
        using "1.IH"[OF l(1) _ Append r[symmetric] eq] l by blast
      have ne: "sent1 \<noteq> []"
        using ih parse_line_nonempty[OF Append] by auto
      have more: "\<exists>more. sent1 = sent @ more"
        using ih by auto
      have "pend U line stream = l # pend U line' stream'"
        using l pend_read[OF r] by (simp add: pend_def)
      then have "\<exists>pre. pend U line stream = pre @ pend U line1 s1"
        using ih by (metis append_Cons)
      then show ?thesis using ne more by simp
    next
      case Break
      then show ?thesis using "1.prems" l parse_line_break[OF Break]
        by (subst (asm) inner_loop.simps) auto
    next
      case NoMatch
      then show ?thesis using "1.prems" l False
        by (subst (asm) inner_loop.simps)
           (auto simp: stuck_def pend_def split: prod.splits if_splits dest!: read_none)
    next
      case (Fault e)
      then show ?thesis using "1.prems" l
        by (subst (asm) inner_loop.simps) auto
    qed
  qed
qed

lemma outer_loop_sentences:
  "outer_loop U line stream doc = Some y \<Longrightarrow>
     \<not> stuck U line stream \<and>
     (\<forall>line' s' doc'. y = Inr (line', s', doc') \<longrightarrow>
        (\<exists>C. pend U line stream = C @ pend U line' s' \<and>
           ([] \<notin> set (sents doc) \<longrightarrow> \<not> double_blank ([] # C) \<longrightarrow> [] \<notin> set (sents doc'))))"
proof (induction rule: outer_loop.raw_induct[rotated 1, consumes 1])
  case (1 f U line stream doc y)
  have ns: "\<not> stuck U line stream"
  proof
    assume st: "stuck U line stream"
    then obtain u where u: "line = Some u" "stream = []"
      by (auto simp: stuck_def split: option.splits)
    have "\<not> stop_line (Some u)" using st u by (simp add: stuck_def)
    then have "f U (Some u) [] (doc\<lparr>sents := sents doc @ [[]]\<rparr>) = Some y"
      using 1(2) st stuck_not_skip[of U u "[]"] inner_loop_stuck[of U u "[]"]
      by (simp add: u stop_line_def)
    from 1(1)[OF this] show False using st u by simp
  qed
  have post: "\<exists>C. pend U line stream = C @ pend U line' s' \<and>
           ([] \<notin> set (sents doc) \<longrightarrow> \<not> double_blank ([] # C) \<longrightarrow> [] \<notin> set (sents doc'))"
    if y: "y = Inr (line', s', doc')" for line' s' doc'
  proof (cases "line = None \<or> line = Some LINE_END_OF_ARTICLE \<or> line = Some LINE_DOC_TAG_CLOSE")
    case True
    then have "line' = line" "s' = stream" "doc' = doc"
      using 1(2) y by auto
    then show ?thesis by simp
  next
    case False
    show ?thesis
    proof (cases "inner_loop U line stream []")
      case (Inl e)
      then show ?thesis using 1(2) False y by simp
    next
      case (Inr r)
      obtain line1 s1 sent where r: "r = (line1, s1, sent)"
        by (cases r)
      note ex = inner_loop_exit[OF Inr[unfolded r]]
      from ex obtain pre where suf: "pend U line stream = pre @ pend U line1 s1"
        by blast
      have empty: "line1 = line \<and> s1 = stream \<and> pre = [] \<and>
          (stop_line line \<or> line = Some FAILING_LINE_3 \<or> stuck U line s1)" if "sent = []"
        using ex that suf by auto
      show ?thesis
      proof (cases "line1 = Some FAILING_LINE_3")
        case True
        then have "line' = line1" "s' = s1" "doc' = doc"
          using 1(2) False Inr r y by auto
        then show ?thesis using suf by auto
      next
        case nskip: False
        let ?doc = "doc\<lparr>sents := sents doc @ [sent]\<rparr>"
        have rec: "line1 \<noteq> None \<Longrightarrow> line1 \<noteq> Some [] \<Longrightarrow> f U line1 s1 ?doc = Some y"
          using 1(2) False Inr r nskip by (cases line1) auto
        show ?thesis
        proof (cases "line1 = Some []")
          case True
          obtain line2 s2 where r2: "read_clean_line U s1 = (line2, s2)"
            by (cases "read_clean_line U s1")
          have "f U line2 s2 ?doc = Some y"
            using 1(2) False Inr r nskip True r2 by simp
          from 1(1)[OF this] y obtain C where
            C: "pend U line2 s2 = C @ pend U line' s'" and
            P: "[] \<notin> set (sents ?doc) \<longrightarrow> \<not> double_blank ([] # C) \<longrightarrow> [] \<notin> set (sents doc')"
            by blast
          have whole: "pend U line stream = (pre @ [] # C) @ pend U line' s'"
            using suf True pend_read[OF r2] C by (simp add: pend_def)
          have "[] \<notin> set (sents doc')"
            if inv: "[] \<notin> set (sents doc)" and ndb: "\<not> double_blank ([] # pre @ [] # C)"
          proof -
            have "sent \<noteq> []"
            proof
              assume "sent = []"
              from empty[OF this] have "pre = []" by simp
              with ndb show False by simp
            qed
            moreover have "\<not> double_blank ([] # C)"
              using ndb double_blank_append[of "[] # C" "[] # pre"] by auto
            ultimately show ?thesis using P inv by simp
          qed
          then show ?thesis using whole by blast
        next
          case nblank: False
          show ?thesis
          proof (cases "line1 = None")
            case True
            then have res: "line' = line1" "s' = s1" "doc' = ?doc"
              using 1(2) False Inr r nskip nblank y by auto
            have "sent \<noteq> []"
            proof
              assume "sent = []"
              from empty[OF this] True False show False by simp
            qed
            then show ?thesis using res suf by auto
          next
            case nnone: False
            then obtain l1 where l1: "line1 = Some l1" "l1 \<noteq> []"
              using nblank by auto
            from 1(1)[OF rec[OF nnone nblank]] y obtain C where
              st1: "\<not> stuck U line1 s1" and
              C: "pend U line1 s1 = C @ pend U line' s'" and
              P: "[] \<notin> set (sents ?doc) \<longrightarrow> \<not> double_blank ([] # C) \<longrightarrow> [] \<notin> set (sents doc')"
              by blast
            have whole: "pend U line stream = (pre @ C) @ pend U line' s'"
              using suf C by simp
            have sent: "sent \<noteq> []"
            proof
              assume "sent = []"
              from empty[OF this] have "line1 = line" and
                "stop_line line \<or> line = Some FAILING_LINE_3 \<or> stuck U line s1"
                by blast+
              then show False using False nskip l1 st1 by (auto simp: stop_line_def)
            qed
            have "[] \<notin> set (sents doc')"
              if inv: "[] \<notin> set (sents doc)" and ndb: "\<not> double_blank ([] # pre @ C)"
            proof -
              have "\<not> double_blank C"
                using ndb double_blank_append[of C "[] # pre"] by auto
              moreover have "C = [] \<or> hd C = l1"
                using C l1 by (cases C) (auto simp: pend_def)
              ultimately have "\<not> double_blank ([] # C)"
                using l1(2) by (cases C) auto
              then show ?thesis using P inv sent by simp
            qed
            then show ?thesis using whole by blast
          qed
        qed
      qed
    qed
  qed
  show ?case using ns post by blast
qed

lemma footer_reads:
  assumes "footer U s = Inr rest"
  shows "reads U s [ustr ''. . Fp 0'', [], LINE_DOC_TAG_CLOSE] = Some rest"
  using assms
  by (auto simp: footer_def expect_line_def reads_Cons split: prod.splits if_splits sum.splits)

lemma read_block_lines:
  assumes "read_block U stream = Some (Inr ([doc], rest))"
    and "reads U stream ls = Some rest"
    and "\<not> double_blank ([] # tl ls)"
  shows "[] \<notin> set (sents doc)"
proof -
  obtain line s1 where r1: "read_clean_line U stream = (line, s1)"
    by (cases "read_clean_line U stream")
  obtain line2 s2 where r2: "read_clean_line U s1 = (line2, s2)"
    by (cases "read_clean_line U s1")
  from assms(1) r1 obtain h where h: "line = Some h"
    by (cases line) (auto simp: read_block_def)
  have all: "clean_lines U stream = h # pend U line2 s2"
    using pend_read[OF r1] pend_read[OF r2] h by (simp add: pend_def)
  obtain g where g: "re_match U PATTERN_DOC_START h = Some g"
    using assms(1) r1 h
    by (cases "re_match U PATTERN_DOC_START h")
       (auto simp: read_block_def split: if_splits sum.splits)
  with assms(1) r1 r2 h obtain i t d line3 s3 where
    o: "outer_loop U line2 s2 \<lparr>doc_id = i, title = t, db_index = d, sents = []\<rparr>
        = Some (Inr (line3, s3, doc))" and
    tail: "if line3 = Some LINE_END_OF_ARTICLE then footer U s3 = Inr rest else rest = s3"
    by (auto simp: read_block_def split: list.splits option.splits sum.splits if_splits)
  from outer_loop_sentences[OF o] obtain C where
    C: "pend U line2 s2 = C @ pend U line3 s3" and
    P: "\<not> double_blank ([] # C) \<longrightarrow> [] \<notin> set (sents doc)"
    by auto
  have "\<exists>X. pend U line3 s3 = X @ clean_lines U rest"
  proof (cases "line3 = Some LINE_END_OF_ARTICLE")
    case True
    with tail have "clean_lines U s3
        = [ustr ''. . Fp 0'', [], LINE_DOC_TAG_CLOSE] @ clean_lines U rest"
      using reads_clean_lines[OF footer_reads] by simp
    then show ?thesis using True by (simp add: pend_def)
  next
    case False
    with tail have "rest = s3" by simp
    then show ?thesis by (cases line3) (auto simp: pend_def)
  qed
  then obtain X where X: "pend U line3 s3 = X @ clean_lines U rest"
    by blast
  have "ls @ clean_lines U rest = (h # C @ X) @ clean_lines U rest"
    using reads_clean_lines[OF assms(2)] all C X by simp
  then have "ls = h # C @ X"
    by (simp only: append_same_eq)
  then have "\<not> double_blank ([] # C)"
    using assms(3) double_blank_prefix[of "[] # C" X] by auto
  then show ?thesis using P by simp
qed

lemma reads_step:
  assumes "read_clean_line U s = (line, s')" and "reads U s' C = Some r"
  shows "\<exists>C'. reads U s C' = Some r"
proof (cases line)
  case None
  with assms(1) have "s = []" "s' = []"
    using read_none[of U s s'] by simp_all
  then show ?thesis using assms(2) by auto
next
  case (Some l)
  then have "reads U s (l # C) = Some r"
    using assms by (simp add: reads_Cons)
  then show ?thesis by blast
qed

lemma reads_trans:
  "reads U s C = Some s1 \<Longrightarrow> reads U s1 C' = Some s2 \<Longrightarrow> \<exists>D. reads U s D = Some s2"
  using reads_append[of U s C C' s2] by blast

lemma inner_loop_reads:
  "inner_loop U line stream sent = Inr (line1, s1, sent1) \<Longrightarrow> \<exists>C. reads U stream C = Some s1"
proof (induction U line stream sent rule: inner_loop.induct)
  case (1 U line stream sent)
  have here: "s1 = stream \<Longrightarrow> ?case"
    using reads.simps(1)[of U stream] by blast
  show ?case
  proof (cases "stop_line line")
    case True
    then have "s1 = stream" using "1.prems"
      by (subst (asm) inner_loop.simps) (auto simp: stop_line_def)
    then show ?thesis by (rule here)
  next
    case False
    then obtain l where l: "line = Some l" "l \<noteq> []" "l \<noteq> LINE_END_OF_ARTICLE" "l \<noteq> LINE_DOC_TAG_CLOSE"
      by (auto simp: stop_line_def)
    show ?thesis
    proof (cases "parse_line U l")
      case (Append toks)
      obtain line' stream' where r: "read_clean_line U stream = (line', stream')"
        by (cases "read_clean_line U stream")
      have eq: "inner_loop U line' stream' (sent @ toks) = Inr (line1, s1, sent1)"
        using "1.prems" l Append r by (subst (asm) inner_loop.simps) simp
      have "\<exists>C. reads U stream' C = Some s1"
        using "1.IH"[OF l(1) _ Append r[symmetric] eq] l by blast
      then show ?thesis using reads_step[OF r] by blast
    next
      case Break
      then have "s1 = stream" using "1.prems" l
        by (subst (asm) inner_loop.simps) auto
      then show ?thesis by (rule here)
    next
      case NoMatch
      then have "s1 = stream" using "1.prems" l
        by (subst (asm) inner_loop.simps)
           (auto split: prod.splits if_splits dest!: read_none)
      then show ?thesis by (rule here)
    next
      case (Fault e)
      then show ?thesis using "1.prems" l
        by (subst (asm) inner_loop.simps) auto
    qed
  qed
qed

lemma outer_loop_reads:
  "outer_loop U line stream doc = Some y \<Longrightarrow>
     (\<forall>line' s' doc'. y = Inr (line', s', doc') \<longrightarrow> (\<exists>C. reads U stream C = Some s'))"
proof (induction rule: outer_loop.raw_induct[rotated 1, consumes 1])
  case (1 f U line stream doc y)
  show ?case
  proof (intro allI impI)
    fix line' s' doc'
    assume y: "y = Inr (line', s', doc')"
    have here: "s' = stream \<Longrightarrow> \<exists>C. reads U stream C = Some s'"
      using reads.simps(1)[of U stream] by blast
    show "\<exists>C. reads U stream C = Some s'"
    proof (cases "line = None \<or> line = Some LINE_END_OF_ARTICLE \<or> line = Some LINE_DOC_TAG_CLOSE")
      case True
      then have "s' = stream" using 1(2) y by auto
      then show ?thesis by (rule here)
    next
      case False
      show ?thesis
      proof (cases "inner_loop U line stream []")
        case (Inl e)
        then show ?thesis using 1(2) False y by simp
      next
        case (Inr r)
        obtain line1 s1 sent where r: "r = (line1, s1, sent)"
          by (cases r)
        from inner_loop_reads[OF Inr[unfolded r]] obtain C1 where
          C1: "reads U stream C1 = Some s1"
          by blast
        let ?doc = "doc\<lparr>sents := sents doc @ [sent]\<rparr>"
        consider (skip) "line1 = Some FAILING_LINE_3"
          | (blank) "line1 \<noteq> Some FAILING_LINE_3" "line1 = Some []"
          | (eof) "line1 \<noteq> Some FAILING_LINE_3" "line1 = None"
          | (more) "line1 \<noteq> Some FAILING_LINE_3" "line1 \<noteq> Some []" "line1 \<noteq> None"
          by blast
        then show ?thesis
        proof cases
          case skip
          then have "s' = s1" using 1(2) False Inr r y by auto
          then show ?thesis using C1 by blast
        next
          case blank
          obtain line2 s2 where r2: "read_clean_line U s1 = (line2, s2)"
            by (cases "read_clean_line U s1")
          have "f U line2 s2 ?doc = Some y"
            using 1(2) False Inr r blank r2 by simp
          from 1(1)[OF this] y obtain C2 where "reads U s2 C2 = Some s'"
            by blast
          from reads_step[OF r2 this] obtain C3 where "reads U s1 C3 = Some s'"
            by blast
          from reads_trans[OF C1 this] show ?thesis .
        next
          case eof
          then have "s' = s1" using 1(2) False Inr r y
            using markers_distinct by auto
          then show ?thesis using C1 by blast
        next
          case more
          have "f U line1 s1 ?doc = Some y"
            using 1(2) False Inr r more by (cases line1) auto
          from 1(1)[OF this] y obtain C2 where "reads U s1 C2 = Some s'"
            by blast
          from reads_trans[OF C1 this] show ?thesis .
        qed
      qed
    qed
  qed
qed

lemma read_block_reads:
  assumes "read_block U stream = Some (Inr (docs, rest))"
  shows "\<exists>ls. reads U stream ls = Some rest"
proof -
  obtain line s1 where r1: "read_clean_line U stream = (line, s1)"
    by (cases "read_clean_line U stream")
  from assms r1 obtain h where h: "line = Some h"
    by (cases line) (auto simp: read_block_def)
  have first: "reads U s1 C = Some rest \<Longrightarrow> ?thesis" for C
    using reads_step[of U stream line s1 C rest] r1 by blast
  show ?thesis
  proof (cases "re_match U PATTERN_DOC_START h")
    case None
    with assms r1 h have "reads U s1 [LINE_DOC_TAG_CLOSE] = Some rest"
      by (auto simp: read_block_def expect_line_def reads_Cons
          split: if_splits sum.splits prod.splits)
    then show ?thesis by (rule first)
  next
    case (Some g)
    obtain line2 s2 where r2: "read_clean_line U s1 = (line2, s2)"
      by (cases "read_clean_line U s1")
    from assms r1 r2 h Some obtain i t d line3 s3 doc where
      o: "outer_loop U line2 s2 \<lparr>doc_id = i, title = t, db_index = d, sents = []\<rparr>
          = Some (Inr (line3, s3, doc))" and
      tail: "if line3 = Some LINE_END_OF_ARTICLE then footer U s3 = Inr rest else rest = s3"
      by (auto simp: read_block_def split: list.splits option.splits sum.splits if_splits)
    from outer_loop_reads[OF o] obtain C where C: "reads U s2 C = Some s3"
      by blast
    have "\<exists>D. reads U s3 D = Some rest"
    proof (cases "line3 = Some LINE_END_OF_ARTICLE")
      case True
      with tail footer_reads[of U s3 rest] show ?thesis by auto
    next
      case False
      with tail have "rest = s3" by simp
      then show ?thesis using reads.simps(1)[of U s3] by blast
    qed
    then obtain D where "reads U s3 D = Some rest"
      by blast
    from reads_trans[OF C this] obtain E where "reads U s2 E = Some rest"
      by blast
    from reads_step[OF r2 this] obtain F where "reads U s1 F = Some rest"
      by blast
    then show ?thesis by (rule first)
  qed
qed

section \<open>Blocks\<close>

lemma record_prefix:
  assumes "apart U" and "field U w" and "gap U g1" and "field U l" and "gap U g2"
    and "field U t" and "gap U g3" and "digits U d"
    and "x = [] \<or> \<not> isdecimal U (hd x)"
    and "w @ g1 @ l @ g2 @ t @ g3 @ d @ x \<notin> set literal_lines"
  shows "parse_line U (w @ g1 @ l @ g2 @ t @ g3 @ d @ x)
       = Append [(PyStr w, PyStr l, PyStr t, PyStr d)]"
    and "token_line U (w @ g1 @ l @ g2 @ t @ g3 @ d @ x)"
proof -
  show p: "parse_line U (w @ g1 @ l @ g2 @ t @ g3 @ d @ x)
       = Append [(PyStr w, PyStr l, PyStr t, PyStr d)]"
    using parse_line_match[OF row_word1[OF assms(1-9)] assms(10)] .
  have "w \<noteq> []"
    using assms(2) by (simp add: field_def)
  then show "token_line U (w @ g1 @ l @ g2 @ t @ g3 @ d @ x)"
    using p assms(10) by (simp add: token_line_def literal_lines_def)
qed

lemma reads_block:
  assumes "reads U stream (h # body ss @ ls @ tail) = Some rest"
  shows "\<exists>s1 s2. reads U stream (h # body ss) = Some s1 \<and> reads U s1 ls = Some s2
     \<and> reads U s2 tail = Some rest"
  using assms reads_append[of U stream "h # body ss" "ls @ tail" rest]
    reads_append[of U _ ls tail rest]
  by auto

lemma read_block_close:
  assumes "reads U stream (h # body ss @ ls @ [LINE_DOC_TAG_CLOSE]) = Some rest"
    and "re_match U PATTERN_DOC_START h = Some [i, t, d]"
    and "list_all (sentence U) ss" and "list_all (token_line U) ls"
  shows "read_block U stream =
     Some (Inr ([\<lparr>doc_id = i, title = t, db_index = d,
                  sents = map (tokens_of U) (ss @ (if ls = [] then [] else [ls]))\<rparr>], rest))"
proof -
  from reads_block[OF assms(1)] obtain s1 s2 where
    s1: "reads U stream (h # body ss) = Some s1" and
    s2: "reads U s1 ls = Some s2" and
    s3: "read_clean_line U s2 = (Some LINE_DOC_TAG_CLOSE, rest)"
    by (auto simp: reads_Cons)
  have "outer_from U s1 \<lparr>doc_id = i, title = t, db_index = d, sents = map (tokens_of U) ss\<rparr>
      = Some (Inr (Some LINE_DOC_TAG_CLOSE, rest,
          \<lparr>doc_id = i, title = t, db_index = d,
           sents = map (tokens_of U) (ss @ (if ls = [] then [] else [ls]))\<rparr>))"
    using outer_from_end[OF assms(4) s2 s3] by simp
  then show ?thesis
    using markers_distinct by (simp add: read_block_body[OF s1 assms(2,3)])
qed

lemma read_block_eof:
  assumes "reads U stream (h # body ss @ ls) = Some []"
    and "re_match U PATTERN_DOC_START h = Some [i, t, d]"
    and "list_all (sentence U) ss" and "list_all (token_line U) ls"
  shows "read_block U stream =
     Some (Inr ([\<lparr>doc_id = i, title = t, db_index = d,
                  sents = map (tokens_of U) (ss @ (if ls = [] then [] else [ls]))\<rparr>], []))"
proof -
  from reads_block[of U stream h ss ls "[]" "[]"] assms(1) obtain s1 where
    s1: "reads U stream (h # body ss) = Some s1" and
    s2: "reads U s1 ls = Some []"
    by auto
  have "outer_from U s1 \<lparr>doc_id = i, title = t, db_index = d, sents = map (tokens_of U) ss\<rparr>
      = Some (Inr (None, [],
          \<lparr>doc_id = i, title = t, db_index = d,
           sents = map (tokens_of U) (ss @ (if ls = [] then [] else [ls]))\<rparr>))"
    using outer_from_end[OF assms(4) s2 read_clean_line_Nil] by simp
  then show ?thesis
    by (simp add: read_block_body[OF s1 assms(2,3)])
qed

lemma read_block_skip:
  assumes "reads U stream (h # body ss @ ls @ [FAILING_LINE_3]) = Some rest"
    and "re_match U PATTERN_DOC_START h = Some [i, t, d]"
    and "list_all (sentence U) ss" and "list_all (token_line U) ls"
  shows "read_block U stream =
     Some (Inr ([\<lparr>doc_id = i, title = t, db_index = d, sents = map (tokens_of U) ss\<rparr>], rest))"
proof -
  from reads_block[OF assms(1)] obtain s1 s2 where
    s1: "reads U stream (h # body ss) = Some s1" and
    s2: "reads U s1 ls = Some s2" and
    s3: "read_clean_line U s2 = (Some FAILING_LINE_3, rest)"
    by (auto simp: reads_Cons)
  from outer_from_skip[OF assms(4) s2 s3] show ?thesis
    using markers_distinct by (simp add: read_block_body[OF s1 assms(2,3)])
qed

lemma read_block_raise:
  assumes "reads U stream (h # body ss @ ls @ [u]) = Some rest" and "rest \<noteq> []"
    and "re_match U PATTERN_DOC_START h = Some [i, t, d]"
    and "list_all (sentence U) ss" and "list_all (token_line U) ls"
    and "unparsable U u" and "u \<noteq> LINE_END_OF_ARTICLE" and "u \<noteq> LINE_DOC_TAG_CLOSE"
  shows "read_block U stream =
     Some (Inl (ValueError (ustr ''Could not parse the following non-ending line: '' @ u)))"
proof -
  from reads_block[OF assms(1)] obtain s1 s2 where
    s1: "reads U stream (h # body ss) = Some s1" and
    s2: "reads U s1 ls = Some s2" and
    s3: "read_clean_line U s2 = (Some u, rest)"
    by (auto simp: reads_Cons)
  have ns: "\<not> stop_line (Some u)"
    using assms(6,7,8) by (simp add: stop_line_def unparsable_def)
  from outer_from_nomatch_more[OF assms(5) s2 s3 ns unparsable_nomatch[OF assms(6)] assms(2)]
  show ?thesis
    by (simp add: read_block_body[OF s1 assms(3,4)])
qed

lemma read_block_loop:
  assumes "reads U stream (h # body ss @ ls @ [u]) = Some []"
    and "re_match U PATTERN_DOC_START h = Some [i, t, d]"
    and "list_all (sentence U) ss" and "list_all (token_line U) ls"
    and "unparsable U u" and "u \<noteq> LINE_END_OF_ARTICLE" and "u \<noteq> LINE_DOC_TAG_CLOSE"
  shows "read_block U stream = None"
proof -
  from reads_block[OF assms(1)] obtain s1 s2 where
    s1: "reads U stream (h # body ss) = Some s1" and
    s2: "reads U s1 ls = Some s2" and
    s3: "read_clean_line U s2 = (Some u, [])"
    by (auto simp: reads_Cons)
  have ns: "\<not> stop_line (Some u)"
    using assms(5,6,7) by (simp add: stop_line_def unparsable_def)
  from outer_from_nomatch_eof[OF assms(4) s2 s3 ns unparsable_nomatch[OF assms(5)]]
  show ?thesis
    by (simp add: read_block_body[OF s1 assms(2,3)])
qed

lemma outer_from_blank:
  assumes "read_clean_line U s = (Some [], s')"
  shows "outer_from U s doc = outer_from U s' (doc\<lparr>sents := sents doc @ [[]]\<rparr>)"
proof -
  have "inner_from U s [] = Inr (Some [], s', [])"
    using assms by (rule inner_from_stop) (simp add: stop_line_def)
  then show ?thesis
    using assms markers_distinct by (subst outer_from_unfold) auto
qed

lemma missing_start_marker:
  assumes "read_clean_line U stream = (Some l, s1)"
    and "re_match U PATTERN_DOC_START l = None" and "l \<noteq> []"
  shows "read_block U stream =
     Some (Inl (ValueError (ustr ''Expected an opening document tag'')))"
  using assms by (simp add: read_block_def)

lemma no_start_in_blank: "re_match U PATTERN_DOC_START [] = None"
  by (simp add: re_match_def PATTERN_DOC_START_def lits_def)

lemma strip_trimmed:
  assumes "trimmed U raw pre mid post"
  shows "strip U raw = mid"
proof (cases "mid = []")
  case True
  with assms have "list_all (isspace U) raw"
    by (simp add: trimmed_def)
  then have "dropWhile (isspace U) raw = []"
    by (simp add: list_all_iff dropWhile_eq_Nil_conv)
  then show ?thesis using True by (auto simp: strip_def dest: set_dropWhileD)
next
  case False
  with assms have raw: "raw = pre @ mid @ post" and pre: "list_all (isspace U) pre"
    and post: "list_all (isspace U) post" and h: "\<not> isspace U (hd mid)"
    and l: "\<not> isspace U (last mid)"
    by (simp_all add: trimmed_def)
  have "dropWhile (isspace U) raw = dropWhile (isspace U) (mid @ post)"
    using pre by (simp add: raw list_all_iff dropWhile_append2)
  also have "\<dots> = mid @ post"
    using False h by (cases mid) simp_all
  finally have one: "dropWhile (isspace U) raw = mid @ post" .
  have "dropWhile (isspace U) (rev post @ rev mid) = dropWhile (isspace U) (rev mid)"
    using post by (intro dropWhile_append2) (simp add: list_all_iff)
  also have "\<dots> = rev mid"
    using False l by (cases "rev mid") (auto simp: last_rev[symmetric] hd_rev)
  finally show ?thesis
    by (simp add: strip_def one)
qed

lemma trimmed_exists: "\<exists>pre mid post. trimmed U raw pre mid post"
proof -
  define pre where "pre = takeWhile (isspace U) raw"
  define r1 where "r1 = dropWhile (isspace U) raw"
  define post where "post = rev (takeWhile (isspace U) (rev r1))"
  define mid where "mid = rev (dropWhile (isspace U) (rev r1))"
  have raw: "raw = pre @ r1"
    by (simp add: pre_def r1_def)
  have "rev (takeWhile (isspace U) (rev r1) @ dropWhile (isspace U) (rev r1)) = r1"
    by (simp only: takeWhile_dropWhile_id rev_rev_ident)
  then have r1: "r1 = mid @ post"
    by (simp only: rev_append mid_def post_def)
  have pre: "list_all (isspace U) pre"
    by (auto simp: pre_def list_all_iff dest: set_takeWhileD)
  have post: "list_all (isspace U) post"
    by (auto simp: post_def list_all_iff dest: set_takeWhileD)
  have ends: "\<not> isspace U (hd mid) \<and> \<not> isspace U (last mid)" if ne: "mid \<noteq> []"
  proof
    from ne r1 have "r1 \<noteq> []" and "hd mid = hd r1"
      by auto
    then show "\<not> isspace U (hd mid)"
      using hd_dropWhile[of "isspace U" raw] by (simp add: r1_def)
    from ne have "dropWhile (isspace U) (rev r1) \<noteq> []"
      by (simp add: mid_def)
    then have "\<not> isspace U (hd (dropWhile (isspace U) (rev r1)))"
      by (rule hd_dropWhile)
    then show "\<not> isspace U (last mid)"
      using ne by (simp add: mid_def last_rev)
  qed
  have "trimmed U raw pre mid post"
    unfolding trimmed_def using raw r1 pre post ends by blast
  then show ?thesis by blast
qed

section \<open>Concrete lines and texts\<close>

lemmas eval_defs =
  ustr_def strip_def replace_def py_ucd_def py_isspace_def py_isdecimal_def re_match_def
  grow_def lits_def grp_def word_match_def parse_line_def is_line_def token_line_def
  linebreak_def
  PATTERN_DOC_START_def PATTERN_WORD_def PATTERN_WORD_DOUBLE_def PATTERN_WORD_TRIPLE_def
  FAILING_LINE_def FAILING_LINE_2_def FAILING_LINE_3_def FAILING_LINE_WORD_def
  FAILING_LINE_EXTRA_WORD_def FAILING_LINE_LEMMA_def FAILING_LINE_TAG_def
  FAILING_LINE_SENSE_def LINE_END_OF_ARTICLE_def LINE_DOC_TAG_CLOSE_def
  example_start_def tok_def unparsable_def

lemma apart_py: "apart py_ucd"
  by (auto simp: apart_def py_ucd_def py_isspace_def py_isdecimal_def)

lemma example_lines:
  "is_line py_ucd example_start"
  "is_line py_ucd []"
  "is_line py_ucd LINE_END_OF_ARTICLE"
  "is_line py_ucd LINE_DOC_TAG_CLOSE"
  "is_line py_ucd (ustr ''. . Fp 0'')"
  "is_line py_ucd FAILING_LINE_3"
  "is_line py_ucd (ustr ''Hello hello NN 0'')"
  "is_line py_ucd (ustr ''world world NN 0'')"
  "is_line py_ucd (ustr ''Fz 0'')"
  "is_line py_ucd (ustr ''a b c 0x'')"
  "is_line py_ucd (ustr ''a b c 0 d e'')"
  "is_line py_ucd (ustr ''a b c 1d NN 0'')"
  "is_line py_ucd (ustr ''New York new york NP 0'')"
  "is_line py_ucd (ustr ''a b c d e f NN 12'')"
  "is_line py_ucd (ustr ''Hello hel'')"
  by (simp_all add: eval_defs)

lemma start_match:
  "re_match py_ucd PATTERN_DOC_START example_start = Some [ustr ''1'', ustr ''X'', ustr ''5'']"
  by (simp add: eval_defs)

lemma hello_parse:
  "parse_line py_ucd (ustr ''Hello hello NN 0'') = Append [tok ''Hello'' ''hello'' ''NN'' ''0'']"
  by (simp add: eval_defs)

lemma hello_line: "token_line py_ucd (ustr ''Hello hello NN 0'')"
  by (simp add: eval_defs)

lemma world_parse:
  "parse_line py_ucd (ustr ''world world NN 0'') = Append [tok ''world'' ''world'' ''NN'' ''0'']"
  by (simp add: eval_defs)

lemma world_line: "token_line py_ucd (ustr ''world world NN 0'')"
  by (simp add: eval_defs)

lemma prefix_parse:
  "parse_line py_ucd (ustr ''a b c 0x'') = Append [tok ''a'' ''b'' ''c'' ''0'']"
  by (simp add: eval_defs)

lemma prefix_line: "token_line py_ucd (ustr ''a b c 0x'')"
  by (simp add: eval_defs)

lemma extra_parse:
  "parse_line py_ucd (ustr ''a b c 0 d e'') = Append [tok ''a'' ''b'' ''c'' ''0'']"
  by (simp add: eval_defs)

lemma extra_line: "token_line py_ucd (ustr ''a b c 0 d e'')"
  by (simp add: eval_defs)



lemma fz_parse:
  "parse_line U (ustr ''Fz 0'') = Append [(PyStr [], PyStr [], PyStr (ustr ''Fz''), PyInt 0)]"
  by (simp add: parse_line_def)

lemma fz_line: "token_line U (ustr ''Fz 0'')"
  by (simp add: token_line_def fz_parse) (simp add: eval_defs)

lemma cut_read:
  "read_clean_line py_ucd (ustr ''Hello hel'') = (Some (ustr ''Hello hel''), [])"
  by (simp add: eval_defs read_clean_line_def)

lemma world_read:
  "read_clean_line py_ucd (ustr ''world world NN 0'') = (Some (ustr ''world world NN 0''), [])"
  by (simp add: eval_defs read_clean_line_def)

lemma cut_unparsable: "unparsable py_ucd (ustr ''Hello hel'')"
  by (simp add: eval_defs)

lemma cut_markers:
  "ustr ''Hello hel'' \<noteq> LINE_END_OF_ARTICLE" "ustr ''Hello hel'' \<noteq> LINE_DOC_TAG_CLOSE"
  by (simp_all add: eval_defs)

lemma reads_text:
  "list_all (is_line U) ls \<Longrightarrow> reads U (render ls) ls = Some []"
  using reads_render[of U ls "[]"] by simp

lemma reads_last:
  assumes "list_all (is_line U) ls" and "read_clean_line U tail = (Some u, rest)"
  shows "reads U (render ls @ tail) (ls @ [u]) = Some rest"
  using reads_render[OF assms(1), of tail] assms(2)
  by (simp add: reads_append reads_Cons)

lemma one_sentence: "list_all (sentence py_ucd) [[ustr ''Hello hello NN 0'']]"
  by (simp add: sentence_def hello_line)

lemma closed_block:
  "read_block py_ucd
     (render [example_start, ustr ''Hello hello NN 0'', [], LINE_DOC_TAG_CLOSE] @ rest) =
   Some (Inr ([example_doc [[tok ''Hello'' ''hello'' ''NN'' ''0'']]], rest))"
proof -
  have "reads py_ucd
      (render [example_start, ustr ''Hello hello NN 0'', [], LINE_DOC_TAG_CLOSE] @ rest)
      (example_start # body [[ustr ''Hello hello NN 0'']] @ [] @ [LINE_DOC_TAG_CLOSE]) = Some rest"
    using reads_render[of py_ucd
        "[example_start, ustr ''Hello hello NN 0'', [], LINE_DOC_TAG_CLOSE]" rest]
    by (simp add: example_lines body_def)
  from read_block_close[OF this start_match one_sentence] show ?thesis
    by (simp add: tokens_of_def hello_parse example_doc_def)
qed

section \<open>The claims\<close>

subsection \<open>C1: a file cut after a line that nothing parses\<close>

text \<open>
  Claim C1 says that a file truncated right after a non-blank line that matches no
  token grammar, no entry of the corruption table and not the skip literal makes one
  call of the block parser end and yield a Document.  The code does not return on such
  a file.  The \<open>break\<close> of line 157 leaves the inner loop only; the line stays what it
  was, so the outer loop appends the sentence, starts the inner loop on the same line,
  reads the end of the stream again and breaks again, for ever.  Whenever the lines
  read from the stream are a start marker \<open>h\<close>, sentence blocks \<open>ss\<close>, token lines
  \<open>ls\<close> of the sentence in progress and such a line \<open>u\<close>, and the stream is at its end
  after \<open>u\<close>, \<open>read_block\<close> is \<open>None\<close>: it never returns.
\<close>

theorem truncated_unparsable_line_loops:
  assumes "reads U stream (h # body ss @ ls @ [u]) = Some []"
    and "re_match U PATTERN_DOC_START h = Some [i, t, d]"
    and "list_all (sentence U) ss" and "list_all (token_line U) ls"
    and "unparsable U u" and "u \<noteq> LINE_END_OF_ARTICLE" and "u \<noteq> LINE_DOC_TAG_CLOSE"
  shows "read_block U stream = None"
  using assms by (rule read_block_loop)

text \<open>
  The theorem of C1 at a file of one complete sentence, one token line and the cut line
  \<open>Hello hel\<close> with no newline after it.
\<close>

theorem truncated_unparsable_line_loops_witness:
  "read_block py_ucd
     (render [example_start, ustr ''Hello hello NN 0'', [], ustr ''world world NN 0'']
      @ ustr ''Hello hel'') = None"
proof -
  have ls: "list_all (token_line py_ucd) [ustr ''world world NN 0'']"
    by (simp add: world_line)
  have "reads py_ucd
      (render [example_start, ustr ''Hello hello NN 0'', [], ustr ''world world NN 0'']
       @ ustr ''Hello hel'')
      ([example_start, ustr ''Hello hello NN 0'', [], ustr ''world world NN 0'']
       @ [ustr ''Hello hel'']) = Some []"
    by (rule reads_last[OF _ cut_read]) (simp add: example_lines)
  then have "reads py_ucd
      (render [example_start, ustr ''Hello hello NN 0'', [], ustr ''world world NN 0'']
       @ ustr ''Hello hel'')
      (example_start # body [[ustr ''Hello hello NN 0'']] @ [ustr ''world world NN 0'']
       @ [ustr ''Hello hel'']) = Some []"
    by (simp add: body_def)
  from truncated_unparsable_line_loops[OF this start_match one_sentence ls cut_unparsable
      cut_markers]
  show ?thesis .
qed

subsection \<open>C2: a well-formed document block\<close>




subsection \<open>C3: the skip literal\<close>

text \<open>
  Claim C3 says that a line \<open>f\<close> inside a sentence removes that sentence only, and that
  the sentences after it are in the Document.  They are not: on this text, with one
  sentence before the sentence that holds \<open>f\<close> and one after it, the Document has the first
  sentence alone, and the lines after \<open>f\<close> are left in the stream unread.
\<close>

theorem skip_literal_counterexample:
  "read_block py_ucd
     (render [example_start, ustr ''Hello hello NN 0'', [],
              ustr ''world world NN 0'', ustr ''f'', [],
              ustr ''Hello hello NN 0'', [], LINE_DOC_TAG_CLOSE]) =
   Some (Inr ([example_doc [[tok ''Hello'' ''hello'' ''NN'' ''0'']]],
              render [[], ustr ''Hello hello NN 0'', [], LINE_DOC_TAG_CLOSE]))
   \<and> example_doc [[tok ''Hello'' ''hello'' ''NN'' ''0'']]
     \<noteq> example_doc [[tok ''Hello'' ''hello'' ''NN'' ''0''], [tok ''Hello'' ''hello'' ''NN'' ''0'']]"
proof -
  let ?rest = "render [[], ustr ''Hello hello NN 0'', [], LINE_DOC_TAG_CLOSE]"
  have ls: "list_all (token_line py_ucd) [ustr ''world world NN 0'']"
    by (simp add: world_line)
  have "reads py_ucd
      (render [example_start, ustr ''Hello hello NN 0'', [], ustr ''world world NN 0'',
               FAILING_LINE_3] @ ?rest)
      (example_start # body [[ustr ''Hello hello NN 0'']] @ [ustr ''world world NN 0'']
       @ [FAILING_LINE_3]) = Some ?rest"
    using reads_render[of py_ucd
        "[example_start, ustr ''Hello hello NN 0'', [], ustr ''world world NN 0'', FAILING_LINE_3]"
        ?rest]
    by (simp add: example_lines body_def)
  from read_block_skip[OF this start_match one_sentence ls]
  have "read_block py_ucd
      (render [example_start, ustr ''Hello hello NN 0'', [], ustr ''world world NN 0'',
               FAILING_LINE_3] @ ?rest)
      = Some (Inr ([example_doc [[tok ''Hello'' ''hello'' ''NN'' ''0'']]], ?rest))"
    by (simp add: tokens_of_def hello_parse example_doc_def)
  then show ?thesis
    by (simp add: render_def FAILING_LINE_3_def example_doc_def)
qed

text \<open>
  Claim C3 as the code has it (lines 172-173 and 184-185): the line \<open>f\<close> ends the
  document.  Whenever the lines read from the stream are a start marker, the sentence
  blocks \<open>ss\<close>, each with its blank line, the token lines \<open>ls\<close> and the line \<open>f\<close>, the
  Document returned holds the sentences of \<open>ss\<close>, unchanged and in order, and nothing
  else: neither the sentence that holds \<open>f\<close> nor anything after it, which stays in the
  stream as \<open>rest\<close>.
\<close>

theorem skip_literal_ends_document:
  assumes "reads U stream (h # body ss @ ls @ [FAILING_LINE_3]) = Some rest"
    and "re_match U PATTERN_DOC_START h = Some [i, t, d]"
    and "list_all (sentence U) ss" and "list_all (token_line U) ls"
  shows "read_block U stream =
     Some (Inr ([\<lparr>doc_id = i, title = t, db_index = d, sents = map (tokens_of U) ss\<rparr>], rest))"
  using assms by (rule read_block_skip)

text \<open>
  The amended C3 at the text of the counterexample.
\<close>

theorem skip_literal_ends_document_witness:
  "read_block py_ucd
     (render [example_start, ustr ''Hello hello NN 0'', [],
              ustr ''world world NN 0'', ustr ''f'', [],
              ustr ''Hello hello NN 0'', [], LINE_DOC_TAG_CLOSE]) =
   Some (Inr ([example_doc [[tok ''Hello'' ''hello'' ''NN'' ''0'']]],
              render [[], ustr ''Hello hello NN 0'', [], LINE_DOC_TAG_CLOSE]))"
proof -
  let ?rest = "render [[], ustr ''Hello hello NN 0'', [], LINE_DOC_TAG_CLOSE]"
  have ls: "list_all (token_line py_ucd) [ustr ''world world NN 0'']"
    by (simp add: world_line)
  have "reads py_ucd
      (render [example_start, ustr ''Hello hello NN 0'', [], ustr ''world world NN 0'',
               FAILING_LINE_3] @ ?rest)
      (example_start # body [[ustr ''Hello hello NN 0'']] @ [ustr ''world world NN 0'']
       @ [FAILING_LINE_3]) = Some ?rest"
    using reads_render[of py_ucd
        "[example_start, ustr ''Hello hello NN 0'', [], ustr ''world world NN 0'', FAILING_LINE_3]"
        ?rest]
    by (simp add: example_lines body_def)
  from skip_literal_ends_document[OF this start_match one_sentence ls]
  have "read_block py_ucd
      (render [example_start, ustr ''Hello hello NN 0'', [], ustr ''world world NN 0'',
               FAILING_LINE_3] @ ?rest)
      = Some (Inr ([example_doc [[tok ''Hello'' ''hello'' ''NN'' ''0'']]], ?rest))"
    by (simp add: tokens_of_def hello_parse example_doc_def)
  then show ?thesis
    by (simp add: render_def FAILING_LINE_3_def)
qed

subsection \<open>C4: the end of the stream inside a sentence\<close>

text \<open>
  Claim C4 says that the sentence in progress is dropped when the stream ends inside
  it.  It is kept: here the stream ends after the token line \<open>world world NN 0\<close> of the
  second sentence, and the Document has both sentences.
\<close>

theorem truncated_sentence_counterexample:
  "read_block py_ucd
     (render [example_start, ustr ''Hello hello NN 0'', [], ustr ''world world NN 0'']) =
   Some (Inr ([example_doc [[tok ''Hello'' ''hello'' ''NN'' ''0''],
                            [tok ''world'' ''world'' ''NN'' ''0'']]], []))
   \<and> example_doc [[tok ''Hello'' ''hello'' ''NN'' ''0''], [tok ''world'' ''world'' ''NN'' ''0'']]
     \<noteq> example_doc [[tok ''Hello'' ''hello'' ''NN'' ''0'']]"
proof -
  have ls: "list_all (token_line py_ucd) [ustr ''world world NN 0'']"
    by (simp add: world_line)
  have "reads py_ucd
      (render [example_start, ustr ''Hello hello NN 0'', [], ustr ''world world NN 0''])
      (example_start # body [[ustr ''Hello hello NN 0'']] @ [ustr ''world world NN 0'']) = Some []"
    using reads_text[of py_ucd
        "[example_start, ustr ''Hello hello NN 0'', [], ustr ''world world NN 0'']"]
    by (simp add: example_lines body_def)
  from read_block_eof[OF this start_match one_sentence ls] show ?thesis
    by (simp add: tokens_of_def hello_parse world_parse example_doc_def)
qed

text \<open>
  Claim C4 as the code has it (line 187 comes before the test of line 191): when the
  stream is at its end after the start marker, the sentence blocks \<open>ss\<close>, each with its
  blank line, and one or more token lines \<open>ls\<close> of a sentence, the Document holds the
  complete sentences of \<open>ss\<close> and then, as its last sentence, the tokens of \<open>ls\<close>.  The
  lines are those read from the stream, so the last of them may end with the stream,
  without a newline.
\<close>

theorem truncated_sentence_kept:
  assumes "reads U stream (h # body ss @ ls) = Some []"
    and "re_match U PATTERN_DOC_START h = Some [i, t, d]"
    and "list_all (sentence U) ss" and "sentence U ls"
  shows "read_block U stream =
     Some (Inr ([\<lparr>doc_id = i, title = t, db_index = d,
                  sents = map (tokens_of U) ss @ [tokens_of U ls]\<rparr>], []))"
proof -
  have ls: "list_all (token_line U) ls" "ls \<noteq> []"
    using assms(4) by (simp_all add: sentence_def)
  from read_block_eof[OF assms(1,2,3) ls(1)] ls(2) show ?thesis
    by simp
qed

text \<open>
  The amended C4 at a text that ends inside the line \<open>world world NN 0\<close> of the second
  sentence, with no newline after it.
\<close>

theorem truncated_sentence_kept_witness:
  "read_block py_ucd
     (render [example_start, ustr ''Hello hello NN 0'', []] @ ustr ''world world NN 0'') =
   Some (Inr ([example_doc [[tok ''Hello'' ''hello'' ''NN'' ''0''],
                            [tok ''world'' ''world'' ''NN'' ''0'']]], []))"
proof -
  have ls: "sentence py_ucd [ustr ''world world NN 0'']"
    by (simp add: sentence_def world_line)
  have "reads py_ucd
      (render [example_start, ustr ''Hello hello NN 0'', []] @ ustr ''world world NN 0'')
      ([example_start, ustr ''Hello hello NN 0'', []] @ [ustr ''world world NN 0'']) = Some []"
    by (rule reads_last[OF _ world_read]) (simp add: example_lines)
  then have "reads py_ucd
      (render [example_start, ustr ''Hello hello NN 0'', []] @ ustr ''world world NN 0'')
      (example_start # body [[ustr ''Hello hello NN 0'']] @ [ustr ''world world NN 0'']) = Some []"
    by (simp add: body_def)
  from truncated_sentence_kept[OF this start_match one_sentence ls] show ?thesis
    by (simp add: tokens_of_def hello_parse world_parse example_doc_def)
qed

subsection \<open>C5: empty sentences\<close>

text \<open>
  Claim C5 says that no Document holds an empty sentence.  A blank line where a
  sentence starts makes one: the inner loop ends at once and line 187 appends the empty
  list.  Here a blank line follows the start marker, and the Document has one sentence
  with no token.
\<close>

theorem empty_sentence_counterexample:
  "read_block py_ucd (render [example_start, [], LINE_DOC_TAG_CLOSE]) =
     Some (Inr ([example_doc [[]]], []))
   \<and> [] \<in> set (sents (example_doc [[]]))"
proof -
  let ?d = "\<lparr>doc_id = ustr ''1'', title = ustr ''X'', db_index = ustr ''5'', sents = []\<rparr>"
  have "reads py_ucd (render [example_start, [], LINE_DOC_TAG_CLOSE])
      [example_start, [], LINE_DOC_TAG_CLOSE] = Some []"
    by (rule reads_text) (simp add: example_lines)
  then obtain s1 s2 where
    r1: "read_clean_line py_ucd (render [example_start, [], LINE_DOC_TAG_CLOSE])
        = (Some example_start, s1)" and
    r2: "read_clean_line py_ucd s1 = (Some [], s2)" and
    r3: "read_clean_line py_ucd s2 = (Some LINE_DOC_TAG_CLOSE, [])"
    by (auto simp: reads_Cons)
  have "outer_from py_ucd s1 ?d = outer_from py_ucd s2 (?d\<lparr>sents := sents ?d @ [[]]\<rparr>)"
    by (rule outer_from_blank[OF r2])
  also have "\<dots> = Some (Inr (Some LINE_DOC_TAG_CLOSE, [], ?d\<lparr>sents := sents ?d @ [[]]\<rparr>))"
    using outer_from_end[of py_ucd "[]" s2 s2, OF _ _ r3] by simp
  finally show ?thesis
    using markers_distinct
    by (simp add: read_block_start[OF r1 start_match] example_doc_def)
qed

text \<open>
  Claim C5 for the calls that read no blank line where a sentence starts.  When a call
  of \<open>read_block\<close> returns, it has read some lines \<open>ls\<close> and left the stream at
  \<open>rest\<close>, right after them; and if no blank line comes directly after the first of
  these lines or directly after another blank line, every Document returned holds no
  empty sentence; each of its sentences has at least one token.  The lines that the
  call leaves unread do not matter.
\<close>

theorem no_empty_sentence:
  assumes "read_block U stream = Some (Inr (docs, rest))"
  shows "(\<exists>ls. reads U stream ls = Some rest)
     \<and> (\<forall>ls. reads U stream ls = Some rest \<and> \<not> double_blank ([] # tl ls)
          \<longrightarrow> (\<forall>doc\<in>set docs. [] \<notin> set (sents doc)))"
proof (intro conjI allI impI ballI)
  show "\<exists>ls. reads U stream ls = Some rest"
    using assms by (rule read_block_reads)
next
  fix ls doc
  assume ls: "reads U stream ls = Some rest \<and> \<not> double_blank ([] # tl ls)"
    and doc: "doc \<in> set docs"
  have "docs = [] \<or> docs = [doc]"
    using assms doc
    by (auto simp: read_block_def split: prod.splits option.splits list.splits sum.splits
        if_splits)
  with doc have "docs = [doc]"
    by auto
  with assms have "read_block U stream = Some (Inr ([doc], rest))"
    by simp
  from read_block_lines[OF this] ls show "[] \<notin> set (sents doc)"
    by blast
qed

text \<open>
  The amended C5 at a block of one sentence that two blank lines follow: the call
  returns the Document and leaves the two blank lines unread, no blank line stands
  where a sentence starts among the four lines read, and the Document has no empty
  sentence.
\<close>

theorem no_empty_sentence_witness:
  "read_block py_ucd
     (render [example_start, ustr ''Hello hello NN 0'', [], LINE_DOC_TAG_CLOSE] @ [10, 10]) =
     Some (Inr ([example_doc [[tok ''Hello'' ''hello'' ''NN'' ''0'']]], [10, 10]))
   \<and> reads py_ucd
       (render [example_start, ustr ''Hello hello NN 0'', [], LINE_DOC_TAG_CLOSE] @ [10, 10])
       [example_start, ustr ''Hello hello NN 0'', [], LINE_DOC_TAG_CLOSE] = Some [10, 10]
   \<and> \<not> double_blank
       ([] # tl [example_start, ustr ''Hello hello NN 0'', [], LINE_DOC_TAG_CLOSE])
   \<and> [] \<notin> set (sents (example_doc [[tok ''Hello'' ''hello'' ''NN'' ''0'']]))"
proof -
  have rd: "reads py_ucd
       (render [example_start, ustr ''Hello hello NN 0'', [], LINE_DOC_TAG_CLOSE] @ [10, 10])
       [example_start, ustr ''Hello hello NN 0'', [], LINE_DOC_TAG_CLOSE] = Some [10, 10]"
    by (rule reads_render) (simp add: example_lines)
  have nb: "\<not> double_blank
       ([] # tl [example_start, ustr ''Hello hello NN 0'', [], LINE_DOC_TAG_CLOSE])"
    using markers_distinct by (simp add: ustr_def)
  have "[] \<notin> set (sents (example_doc [[tok ''Hello'' ''hello'' ''NN'' ''0'']]))"
    using no_empty_sentence[OF closed_block[of "[10, 10]"], THEN conjunct2, rule_format,
        OF conjI[OF rd nb]]
    by simp
  then show ?thesis
    using closed_block[of "[10, 10]"] rd nb by simp
qed

subsection \<open>C6: lines that nothing parses\<close>

text \<open>
  Claim C6 says that a line whose fourth field only starts with digits, or that has
  more fields after the sense, is rejected.  \<open>Pattern.match\<close> anchors a pattern at the
  start of the line and not at its end, so both lines match \<open>PATTERN_WORD\<close>: with
  further lines after them they are parsed, the sense being the digits the fourth field
  starts with, and no error is raised.
\<close>

theorem prefix_match_counterexample:
  "read_block py_ucd
     (render [example_start, ustr ''a b c 0x'', ustr ''a b c 0 d e'', [], LINE_DOC_TAG_CLOSE]) =
   Some (Inr ([example_doc [[tok ''a'' ''b'' ''c'' ''0'', tok ''a'' ''b'' ''c'' ''0'']]], []))"
proof -
  have ss: "list_all (sentence py_ucd) [[ustr ''a b c 0x'', ustr ''a b c 0 d e'']]"
    by (simp add: sentence_def prefix_line extra_line)
  have "reads py_ucd
      (render [example_start, ustr ''a b c 0x'', ustr ''a b c 0 d e'', [], LINE_DOC_TAG_CLOSE])
      (example_start # body [[ustr ''a b c 0x'', ustr ''a b c 0 d e'']] @ []
       @ [LINE_DOC_TAG_CLOSE]) = Some []"
    using reads_text[of py_ucd
        "[example_start, ustr ''a b c 0x'', ustr ''a b c 0 d e'', [], LINE_DOC_TAG_CLOSE]"]
    by (simp add: example_lines body_def)
  from read_block_close[OF this start_match ss] show ?thesis
    by (simp add: tokens_of_def prefix_parse extra_parse example_doc_def)
qed

text \<open>
  Claim C6 as the code has it, in a block whose lines so far are a start marker \<open>h\<close>,
  the sentence blocks \<open>ss\<close> and the token lines \<open>ls\<close> of the sentence in progress.

  First, a line \<open>u\<close> that is not blank, not \<open>Fz 0\<close>, not in the corruption table, not
  the skip literal and not one of the two marker lines, and of which no start matches
  one of the three word patterns (\<open>word_match\<close> is \<open>None\<close>), makes \<open>read_block\<close> raise
  the \<open>ValueError\<close> of line 159, which names the line, whenever anything follows the
  line in the stream.

  Second, a line \<open>u\<close> that starts with a record of rule 2, a word \<open>w\<close>, a lemma \<open>l\<close>
  and a tag \<open>tg\<close> of one field each and digits \<open>n\<close>, with white space between them,
  and goes on with any \<open>x\<close> that does not start with a digit, is parsed and not
  rejected, if it is none of the literal lines of the reader.  The fourth field of such
  a line may go on after its digits, and more fields may follow it.  With a blank line
  and the closing marker after it, the line gives the last token of its sentence, the
  sense being the digits \<open>n\<close> that its fourth field starts with, and the call returns
  the Document.  No decimal digit is white space in the character table.
\<close>

theorem unparsable_line_raises:
  assumes "re_match U PATTERN_DOC_START h = Some [i, t, d]"
    and "list_all (sentence U) ss" and "list_all (token_line U) ls"
  shows "(unparsable U u \<and> u \<noteq> LINE_END_OF_ARTICLE \<and> u \<noteq> LINE_DOC_TAG_CLOSE
          \<and> reads U stream (h # body ss @ ls @ [u]) = Some rest \<and> rest \<noteq> []
        \<longrightarrow> read_block U stream =
            Some (Inl (ValueError
              (ustr ''Could not parse the following non-ending line: '' @ u))))
     \<and> (apart U \<and> field U w \<and> gap U g1 \<and> field U l \<and> gap U g2 \<and> field U tg \<and> gap U g3
          \<and> digits U n \<and> (x = [] \<or> \<not> isdecimal U (hd x))
          \<and> u = w @ g1 @ l @ g2 @ tg @ g3 @ n @ x \<and> u \<notin> set literal_lines
          \<and> reads U stream (h # body (ss @ [ls @ [u]]) @ [LINE_DOC_TAG_CLOSE]) = Some rest
        \<longrightarrow> read_block U stream =
            Some (Inr ([\<lparr>doc_id = i, title = t, db_index = d,
                         sents = map (tokens_of U) ss
                           @ [tokens_of U ls @ [(PyStr w, PyStr l, PyStr tg, PyStr n)]]\<rparr>],
                       rest)))"
proof (intro conjI impI)
  assume a: "unparsable U u \<and> u \<noteq> LINE_END_OF_ARTICLE \<and> u \<noteq> LINE_DOC_TAG_CLOSE
      \<and> reads U stream (h # body ss @ ls @ [u]) = Some rest \<and> rest \<noteq> []"
  then show "read_block U stream =
      Some (Inl (ValueError (ustr ''Could not parse the following non-ending line: '' @ u)))"
    using read_block_raise[of U stream h ss ls u rest i t d] assms by blast
next
  assume b: "apart U \<and> field U w \<and> gap U g1 \<and> field U l \<and> gap U g2 \<and> field U tg \<and> gap U g3
      \<and> digits U n \<and> (x = [] \<or> \<not> isdecimal U (hd x))
      \<and> u = w @ g1 @ l @ g2 @ tg @ g3 @ n @ x \<and> u \<notin> set literal_lines
      \<and> reads U stream (h # body (ss @ [ls @ [u]]) @ [LINE_DOC_TAG_CLOSE]) = Some rest"
  then have u: "u = w @ g1 @ l @ g2 @ tg @ g3 @ n @ x"
    by blast
  have p: "parse_line U u = Append [(PyStr w, PyStr l, PyStr tg, PyStr n)]"
    and tl: "token_line U u"
    unfolding u using b record_prefix[of U w g1 l g2 tg g3 n x] by blast+
  have ss: "list_all (sentence U) (ss @ [ls @ [u]])"
    using assms(2,3) tl by (simp add: sentence_def)
  from b have "reads U stream (h # body (ss @ [ls @ [u]]) @ [LINE_DOC_TAG_CLOSE]) = Some rest"
    by blast
  then have "reads U stream (h # body (ss @ [ls @ [u]]) @ [] @ [LINE_DOC_TAG_CLOSE]) = Some rest"
    by (simp only: append_Nil)
  from read_block_close[OF this assms(1) ss]
  show "read_block U stream =
      Some (Inr ([\<lparr>doc_id = i, title = t, db_index = d,
                   sents = map (tokens_of U) ss
                     @ [tokens_of U ls @ [(PyStr w, PyStr l, PyStr tg, PyStr n)]]\<rparr>], rest))"
    using p by (simp add: tokens_of_def)
qed

text \<open>
  The amended C6 at the line \<open>Hello hel\<close> followed by a blank line, which raises, and
  at the line \<open>a b c 0x\<close> followed by a blank line and the closing marker, which is
  parsed with the sense \<open>0\<close>.
\<close>

theorem unparsable_line_raises_witness:
  "read_block py_ucd
     (render [example_start, ustr ''Hello hello NN 0'', ustr ''Hello hel'', []]) =
   Some (Inl (ValueError
     (ustr ''Could not parse the following non-ending line: '' @ ustr ''Hello hel'')))
   \<and> read_block py_ucd
     (render [example_start, ustr ''Hello hello NN 0'', ustr ''a b c 0x'', [],
              LINE_DOC_TAG_CLOSE]) =
   Some (Inr ([example_doc [[tok ''Hello'' ''hello'' ''NN'' ''0'',
                             tok ''a'' ''b'' ''c'' ''0'']]], []))"
proof -
  have ls: "list_all (token_line py_ucd) [ustr ''Hello hello NN 0'']"
    by (simp add: hello_line)
  have ss: "list_all (sentence py_ucd) []"
    by simp
  have r1: "reads py_ucd
      (render [example_start, ustr ''Hello hello NN 0'', ustr ''Hello hel'', []])
      (example_start # body [] @ [ustr ''Hello hello NN 0''] @ [ustr ''Hello hel'']) = Some [10]"
    using reads_render[of py_ucd
        "[example_start, ustr ''Hello hello NN 0'', ustr ''Hello hel'']" "[10]"]
    by (simp add: example_lines body_def render_def)
  have r2: "reads py_ucd
      (render [example_start, ustr ''Hello hello NN 0'', ustr ''a b c 0x'', [],
               LINE_DOC_TAG_CLOSE])
      (example_start # body ([] @ [[ustr ''Hello hello NN 0''] @ [ustr ''a b c 0x'']])
       @ [LINE_DOC_TAG_CLOSE]) = Some []"
    using reads_text[of py_ucd
        "[example_start, ustr ''Hello hello NN 0'', ustr ''a b c 0x'', [], LINE_DOC_TAG_CLOSE]"]
    by (simp add: example_lines body_def)
  have parts: "field py_ucd (ustr ''a'')" "gap py_ucd (ustr '' '')" "field py_ucd (ustr ''b'')"
    "field py_ucd (ustr ''c'')" "digits py_ucd (ustr ''0'')"
    "ustr ''x'' = [] \<or> \<not> isdecimal py_ucd (hd (ustr ''x''))"
    "ustr ''a b c 0x'' = ustr ''a'' @ ustr '' '' @ ustr ''b'' @ ustr '' '' @ ustr ''c''
       @ ustr '' '' @ ustr ''0'' @ ustr ''x''"
    "ustr ''a b c 0x'' \<notin> set literal_lines"
    by (simp_all add: field_def gap_def digits_def literal_lines_def eval_defs)
  have one: "read_block py_ucd
      (render [example_start, ustr ''Hello hello NN 0'', ustr ''Hello hel'', []]) =
      Some (Inl (ValueError
        (ustr ''Could not parse the following non-ending line: '' @ ustr ''Hello hel'')))"
    using unparsable_line_raises[OF start_match ss ls,
        of "ustr ''Hello hel''" _ "[10]", THEN conjunct1] cut_unparsable cut_markers r1
    by simp
  have two: "read_block py_ucd
      (render [example_start, ustr ''Hello hello NN 0'', ustr ''a b c 0x'', [],
               LINE_DOC_TAG_CLOSE]) =
      Some (Inr ([example_doc [[tok ''Hello'' ''hello'' ''NN'' ''0'',
                                tok ''a'' ''b'' ''c'' ''0'']]], []))"
    using unparsable_line_raises[OF start_match ss ls,
        of "ustr ''a b c 0x''" _ "[]" "ustr ''a''" "ustr '' ''" "ustr ''b''" "ustr '' ''"
          "ustr ''c''" "ustr '' ''" "ustr ''0''" "ustr ''x''", THEN conjunct2]
      apart_py parts r2
    by (simp add: tokens_of_def hello_parse example_doc_def tok_def)
  show ?thesis
    using one two by simp
qed

subsection \<open>C7: the line \<open>Fz 0\<close>\<close>

text \<open>
  Claim C7 says that the line \<open>Fz 0\<close> gives the token of an empty word, an empty
  lemma, the tag \<open>Fz\<close> and the sense \<open>0\<close>, all four of them texts.  Line 143 sets the
  sense to the integer 0, where every other branch (lines 166, 171 and 175) gives a
  text: on this block the token's sense is the integer, which is not the text \<open>0\<close>.
\<close>

theorem fz_sense_is_integer:
  "read_block py_ucd (render [example_start, ustr ''Fz 0'', [], LINE_DOC_TAG_CLOSE]) =
     Some (Inr ([example_doc [[(PyStr [], PyStr [], PyStr (ustr ''Fz''), PyInt 0)]]], []))
   \<and> PyInt 0 \<noteq> PyStr (ustr ''0'')"
proof -
  have ss: "list_all (sentence py_ucd) [[ustr ''Fz 0'']]"
    by (simp add: sentence_def fz_line)
  have "reads py_ucd (render [example_start, ustr ''Fz 0'', [], LINE_DOC_TAG_CLOSE])
      (example_start # body [[ustr ''Fz 0'']] @ [] @ [LINE_DOC_TAG_CLOSE]) = Some []"
    using reads_text[of py_ucd "[example_start, ustr ''Fz 0'', [], LINE_DOC_TAG_CLOSE]"]
    by (simp add: example_lines body_def)
  from read_block_close[OF this start_match ss] show ?thesis
    by (simp add: tokens_of_def fz_parse example_doc_def)
qed

subsection \<open>C8: two closing markers in a row\<close>

text \<open>
  Claim C8: when the first line that \<open>read_block\<close> reads is the empty string, it reads
  a second line; if that is the closing marker the call returns no document and raises
  nothing, and anything else there (the end of the stream too) fails the assertion of
  line 124.
\<close>

theorem duplicate_close:
  assumes "read_clean_line U stream = (Some [], s1)"
    and "read_clean_line U s1 = (line2, s2)"
  shows "read_block U stream =
     Some (if line2 = Some LINE_DOC_TAG_CLOSE then Inr ([], s2)
           else Inl (AssertionError (ustr ''Expected a closing body tag'')))"
  using assms by (simp add: read_block_def expect_line_def no_start_in_blank)

text \<open>
  The theorem of C8 at a blank line followed by the closing marker, and at a blank line
  followed by a start marker.
\<close>

theorem duplicate_close_witness:
  "read_block py_ucd (render [[], LINE_DOC_TAG_CLOSE]) = Some (Inr ([], []))
   \<and> read_block py_ucd (render [[], example_start]) =
       Some (Inl (AssertionError (ustr ''Expected a closing body tag'')))"
proof -
  have blank: "read_clean_line py_ucd ([] @ 10 # s) = (Some [], s)" for s
    by (rule read_clean_line_is_line[OF example_lines(2)])
  have close: "read_clean_line py_ucd (LINE_DOC_TAG_CLOSE @ 10 # []) = (Some LINE_DOC_TAG_CLOSE, [])"
    by (rule read_clean_line_is_line[OF example_lines(4)])
  have start: "read_clean_line py_ucd (example_start @ 10 # []) = (Some example_start, [])"
    by (rule read_clean_line_is_line[OF example_lines(1)])
  have ne: "example_start \<noteq> LINE_DOC_TAG_CLOSE"
    by (simp add: eval_defs)
  show ?thesis
    using duplicate_close[OF blank close] duplicate_close[OF blank start] ne
    by (simp add: render_def)
qed

subsection \<open>C9: the lines of the line source\<close>

text \<open>
  Claim C9 says that \<open>read_clean_line\<close> removes the trailing newline only and keeps
  the other white space at both ends of the line.  \<open>str.strip\<close> removes all of it: the
  two spaces before and after \<open>a b\<close> are gone.
\<close>

theorem leading_space_counterexample:
  "read_clean_line py_ucd (ustr ''  a b  '' @ [10]) = (Some (ustr ''a b''), [])
   \<and> ustr ''a b'' \<noteq> replace 160 32 (ustr ''  a b  '')"
  by (simp add: read_clean_line_def eval_defs)

text \<open>
  Claim C9 as the code has it.  Every raw line is white space \<open>pre\<close>, then \<open>mid\<close>, then
  white space \<open>post\<close> (the newline is part of it), where \<open>mid\<close> is empty or starts and
  ends with a character that is not white space; and however the raw line is cut in
  this way, the line returned is \<open>mid\<close> with every non-breaking space (code point 160)
  in it replaced by a space (code point 32).  All the white space at the start and at
  the end of the raw line is removed, and nothing else is.
\<close>

theorem read_clean_line_strips:
  assumes "readline stream = (raw, rest)" and "raw \<noteq> []"
  shows "(\<exists>pre mid post. trimmed U raw pre mid post)
     \<and> (\<forall>pre mid post. trimmed U raw pre mid post \<longrightarrow>
          read_clean_line U stream
            = (Some (map (\<lambda>c. if c = 160 then 32 else c) mid), rest))"
proof (intro conjI allI impI)
  show "\<exists>pre mid post. trimmed U raw pre mid post"
    by (rule trimmed_exists)
next
  fix pre mid post
  assume "trimmed U raw pre mid post"
  then have "strip U raw = mid"
    by (rule strip_trimmed)
  then show "read_clean_line U stream
      = (Some (map (\<lambda>c. if c = 160 then 32 else c) mid), rest)"
    using assms by (simp add: read_clean_line_def replace_def)
qed

text \<open>
  The amended C9 at the raw line of a space, \<open>a\<close>, a non-breaking space, \<open>b\<close>, a
  space and the newline, with \<open>x\<close> after it in the stream: the line returned is \<open>a\<close>,
  a space and \<open>b\<close>.
\<close>

theorem read_clean_line_strips_witness:
  "trimmed py_ucd [32, 97, 160, 98, 32, 10] [32] [97, 160, 98] [32, 10]
   \<and> read_clean_line py_ucd ([32, 97, 160, 98, 32, 10] @ ustr ''x'')
       = (Some [97, 32, 98], ustr ''x'')"
proof -
  have rl: "readline ([32, 97, 160, 98, 32, 10] @ ustr ''x'')
      = ([32, 97, 160, 98, 32, 10], ustr ''x'')"
    by (simp add: linebreak_def ustr_def)
  have tr: "trimmed py_ucd [32, 97, 160, 98, 32, 10] [32] [97, 160, 98] [32, 10]"
    by (simp add: trimmed_def py_ucd_def py_isspace_def)
  have ne: "[32, 97, 160, 98, 32, 10] \<noteq> ([] :: ustring)"
    by simp
  from read_clean_line_strips[OF rl ne, of py_ucd, THEN conjunct2, rule_format, OF tr] tr
  show ?thesis
    by simp
qed

subsection \<open>C10: a stream at its end\<close>

text \<open>
  Claim C10: when the first read of \<open>read_block\<close> finds the stream at its end, the
  call neither returns the empty list nor raises one of its own errors (the
  \<open>ValueError\<close>s and the assertions): line 119 applies \<open>Pattern.match\<close> to \<open>None\<close>,
  which raises \<open>TypeError\<close>.
\<close>

theorem exhausted_stream_type_error:
  assumes "fst (read_clean_line U stream) = None"
  shows "read_block U stream = Some (Inl TypeError)"
  using assms by (cases "read_clean_line U stream") (simp add: read_block_def)

text \<open>
  The theorem of C10 at the empty stream.
\<close>

theorem exhausted_stream_type_error_witness:
  "read_block py_ucd [] = Some (Inl TypeError)"
  using exhausted_stream_type_error[of py_ucd "[]"] by (simp add: read_clean_line_Nil)

end
